theory Spec2Isabelle
  imports Complex_Main "HOL-Library.Log_Nat" "HOL-Library.Sublist"
begin

section \<open>JavaScript numbers\<close>

text \<open>
  Every number of the program is an IEEE-754 binary64 value. A finite one is the rational
  it denotes; the two infinities and NaN are values of their own. The sign of a zero is
  not modelled: the program never divides by a value that can be a negative zero (every
  divisor is the result of \<open>gcd\<close>, which starts from \<open>Math.abs\<close>), and \<open>-0 === 0\<close>.
\<close>

datatype number = Fin rat | PInf | NInf | NaN

definition pow2 :: "int \<Rightarrow> rat" where
  "pow2 k = (if 0 \<le> k then 2 ^ nat k else 1 / 2 ^ nat (- k))"

definition ilog2 :: "rat \<Rightarrow> int" where
  \<comment> \<open>for \<open>0 < x\<close>: the exponent \<open>e\<close> with \<open>2^e \<le> x < 2^(e+1)\<close>\<close>
  "ilog2 x = (case quotient_of x of (p, q) \<Rightarrow>
     (let k = bitlen p - bitlen q in if pow2 k \<le> x then k else k - 1))"

definition round_half_even :: "rat \<Rightarrow> int" where
  "round_half_even x = (let f = \<lfloor>x\<rfloor>; d = x - of_int f in
     if d < 1 / 2 then f else if 1 / 2 < d then f + 1 else if even f then f else f + 1)"

definition round_double :: "rat \<Rightarrow> number" where
  \<comment> \<open>round to nearest, ties to even, 53 significant bits, least exponent \<open>-1074\<close>,
      overflow to an infinity\<close>
  "round_double x = (if x = 0 then Fin 0 else
     (let a = \<bar>x\<bar>;
          q = max (ilog2 a - 52) (- 1074);
          r = of_int (round_half_even (a / pow2 q)) * pow2 q
      in if pow2 1024 \<le> r then (if 0 < x then PInf else NInf)
         else Fin (if 0 < x then r else - r)))"

definition round_div :: "int \<Rightarrow> int \<Rightarrow> int" where
  \<comment> \<open>\<open>round_half_even (a / d)\<close> on integers, for \<open>0 < d\<close>\<close>
  "round_div a d = (let f = a div d; r = a mod d in
     if 2 * r < d then f else if d < 2 * r then f + 1 else if even f then f else f + 1)"

fun js_abs :: "number \<Rightarrow> number" where
  "js_abs (Fin x) = Fin \<bar>x\<bar>"
| "js_abs PInf = PInf"
| "js_abs NInf = PInf"
| "js_abs NaN = NaN"

definition trunc :: "rat \<Rightarrow> int" where
  "trunc x = (if 0 \<le> x then \<lfloor>x\<rfloor> else \<lceil>x\<rceil>)"

fun js_rem :: "number \<Rightarrow> number \<Rightarrow> number" where
  \<comment> \<open>\<open>a % b\<close>: the remainder has the sign of the dividend and is always exact\<close>
  "js_rem (Fin a) (Fin b) = (if b = 0 then NaN else Fin (a - b * of_int (trunc (a / b))))"
| "js_rem (Fin a) PInf = Fin a"
| "js_rem (Fin a) NInf = Fin a"
| "js_rem _ _ = NaN"

fun js_add :: "number \<Rightarrow> number \<Rightarrow> number" where
  "js_add (Fin a) (Fin b) = round_double (a + b)"
| "js_add NaN _ = NaN"
| "js_add _ NaN = NaN"
| "js_add PInf NInf = NaN"
| "js_add NInf PInf = NaN"
| "js_add PInf _ = PInf"
| "js_add NInf _ = NInf"
| "js_add _ PInf = PInf"
| "js_add _ NInf = NInf"

fun sign_inf :: "bool \<Rightarrow> number" where
  "sign_inf True = PInf"
| "sign_inf False = NInf"

fun js_mul :: "number \<Rightarrow> number \<Rightarrow> number" where
  "js_mul (Fin a) (Fin b) = round_double (a * b)"
| "js_mul NaN _ = NaN"
| "js_mul _ NaN = NaN"
| "js_mul (Fin a) PInf = (if a = 0 then NaN else sign_inf (0 < a))"
| "js_mul (Fin a) NInf = (if a = 0 then NaN else sign_inf (a < 0))"
| "js_mul PInf (Fin b) = (if b = 0 then NaN else sign_inf (0 < b))"
| "js_mul NInf (Fin b) = (if b = 0 then NaN else sign_inf (b < 0))"
| "js_mul PInf PInf = PInf"
| "js_mul NInf NInf = PInf"
| "js_mul PInf NInf = NInf"
| "js_mul NInf PInf = NInf"

fun js_div :: "number \<Rightarrow> number \<Rightarrow> number" where
  "js_div (Fin a) (Fin b) =
     (if b = 0 then (if a = 0 then NaN else sign_inf (0 < a)) else round_double (a / b))"
| "js_div NaN _ = NaN"
| "js_div _ NaN = NaN"
| "js_div (Fin a) _ = Fin 0"
| "js_div PInf (Fin b) = sign_inf (0 \<le> b)"
| "js_div NInf (Fin b) = sign_inf (b < 0)"
| "js_div _ _ = NaN"

fun js_lt :: "number \<Rightarrow> number \<Rightarrow> bool" where
  "js_lt (Fin a) (Fin b) = (a < b)"
| "js_lt NaN _ = False"
| "js_lt _ NaN = False"
| "js_lt _ NInf = False"
| "js_lt PInf _ = False"
| "js_lt _ _ = True"

fun js_eq :: "number \<Rightarrow> number \<Rightarrow> bool" where
  \<comment> \<open>\<open>a === b\<close> on numbers\<close>
  "js_eq NaN _ = False"
| "js_eq _ NaN = False"
| "js_eq a b = (a = b)"

definition js_le :: "number \<Rightarrow> number \<Rightarrow> bool" where
  "js_le a b = (js_lt a b \<or> js_eq a b)"

definition js_gt :: "number \<Rightarrow> number \<Rightarrow> bool" where
  "js_gt a b = js_lt b a"

definition js_ge :: "number \<Rightarrow> number \<Rightarrow> bool" where
  "js_ge a b = js_le b a"

abbreviation num :: "int \<Rightarrow> number" where
  "num n \<equiv> Fin (of_int n)"

section \<open>The function gcd\<close>

text \<open>
  \<^verbatim>\<open>function gcd(a, b) { a = Math.abs(a); b = Math.abs(b);
    while (b !== 0) { const t = b; b = a % b; a = t; }  return a; }\<close>
  The loop does not end when \<open>b\<close> becomes NaN (\<open>NaN !== 0\<close> holds for ever), so it is
  a partial function: \<open>None\<close> is "never returns".
\<close>

partial_function (option) gcd_loop :: "number \<Rightarrow> number \<Rightarrow> number option" where
  "gcd_loop a b = (if \<not> js_eq b (Fin 0) then gcd_loop b (js_rem a b) else Some a)"

declare gcd_loop.simps [code]

definition gcd_js :: "number \<Rightarrow> number \<Rightarrow> number option" where
  "gcd_js a b = gcd_loop (js_abs a) (js_abs b)"


section \<open>Decoded JSON values\<close>

text \<open>
  The request body is what \<open>express.json()\<close> decoded. An object is the list of its
  own properties in the order of \<open>Object.keys\<close>; a property that is absent reads as
  \<open>undefined\<close>, which is \<open>None\<close> here.
\<close>

datatype json = JNull | JBool bool | JNum number | JStr string
  | JArr "json list" | JObj "(string \<times> json) list"

fun isInteger :: "json \<Rightarrow> bool" where
  \<comment> \<open>\<open>Number.isInteger\<close>\<close>
  "isInteger (JNum (Fin q)) = (of_int \<lfloor>q\<rfloor> = q)"
| "isInteger _ = False"

fun isArray :: "json \<Rightarrow> bool" where
  \<comment> \<open>\<open>Array.isArray\<close>\<close>
  "isArray (JArr xs) = True"
| "isArray _ = False"

fun elems :: "json \<Rightarrow> json list" where
  "elems (JArr xs) = xs"
| "elems _ = []"

fun the_num :: "json \<Rightarrow> number" where
  \<comment> \<open>the number behind a value already known to be one; the other case is never reached,
      because \<open>&&\<close> evaluates its right operand only when \<open>Number.isInteger\<close> holds\<close>
  "the_num (JNum x) = x"
| "the_num _ = NaN"

fun the_int :: "json \<Rightarrow> int" where
  "the_int (JNum (Fin q)) = \<lfloor>q\<rfloor>"
| "the_int _ = 0"

definition positive_integer :: "json \<Rightarrow> bool" where
  \<comment> \<open>\<open>(n) => Number.isInteger(n) && n > 0\<close>\<close>
  "positive_integer n = (isInteger n \<and> js_gt (the_num n) (Fin 0))"

section \<open>The computation library of index.js\<close>

subsection \<open>fibonacci\<close>

text \<open>
  \<^verbatim>\<open>function fibonacci(n) { if (n <= 0) return []; if (n === 1) return [0];
    const series = [0, 1];
    for (let i = 2; i < n; i++) series.push(series[i - 1] + series[i - 2]);
    return series; }\<close>
  The handler calls it with an integer between 0 and 1000 only, so \<open>n\<close> and the
  counter \<open>i\<close> are integers and counting is exact. The elements are numbers and \<open>+\<close> is
  the addition of numbers, which rounds. A read outside the array is \<open>undefined\<close>, which
  \<open>+\<close> turns into NaN.
\<close>

definition elem :: "number list \<Rightarrow> int \<Rightarrow> number" where
  "elem xs i = (if 0 \<le> i \<and> nat i < length xs then xs ! nat i else NaN)"

function fib_loop :: "int \<Rightarrow> int \<Rightarrow> number list \<Rightarrow> number list" where
  "fib_loop i n series =
     (if i < n then fib_loop (i + 1) n (series @ [js_add (elem series (i - 1)) (elem series (i - 2))])
      else series)"
  by pat_completeness auto
termination
  by (relation "measure (\<lambda>(i, n, series). nat (n - i))") auto

declare fib_loop.simps [simp del]

definition fibonacci :: "int \<Rightarrow> number list" where
  "fibonacci n = (if n \<le> 0 then [] else if n = 1 then [Fin 0]
     else fib_loop 2 n [Fin 0, Fin 1])"

subsection \<open>isPrime and filterPrimes\<close>

text \<open>
  \<^verbatim>\<open>function isPrime(num) { if (num < 2) return false; if (num === 2) return true;
    if (num % 2 === 0) return false;
    for (let i = 3; i * i <= num; i += 2) { if (num % i === 0) return false; }
    return true; }\<close>
  \<open>filterPrimes\<close> calls it behind \<open>Number.isInteger(n) && n > 0\<close>, so its argument is a
  positive integer. On such an argument the arithmetic is exact: \<open>%\<close> never rounds, a number
  from \<open>2^53\<close> on is even and leaves at the third line, and below \<open>2^53\<close> the counter \<open>i\<close>
  stays under \<open>2^27\<close>, where \<open>i * i\<close> is either exact or at least \<open>2^53\<close> and so greater
  than \<open>num\<close> either way.
\<close>

function isPrime_loop :: "nat \<Rightarrow> int \<Rightarrow> bool" where
  "isPrime_loop i n =
     (if int i * int i \<le> n then (if n mod int i = 0 then False else isPrime_loop (i + 2) n)
      else True)"
  by pat_completeness auto
termination
proof (relation "measure (\<lambda>(i, n). nat n + 1 - i)")
  show "wf (measure (\<lambda>(i, n). nat n + 1 - i))" by simp
next
  fix i :: nat and n :: int
  assume a: "int i * int i \<le> n"
  have "int i \<le> int i * int i" by (cases "i = 0") simp_all
  with a have "int i \<le> n" by linarith
  then show "((i + 2, n), (i, n)) \<in> measure (\<lambda>(i, n). nat n + 1 - i)" by simp
qed

declare isPrime_loop.simps [simp del]

definition isPrime :: "int \<Rightarrow> bool" where
  "isPrime n = (if n < 2 then False else if n = 2 then True
     else if n mod 2 = 0 then False else isPrime_loop 3 n)"

definition filterPrimes :: "json \<Rightarrow> json list" where
  "filterPrimes arr =
     (if \<not> isArray arr then []
      else filter (\<lambda>n. positive_integer n \<and> isPrime (the_int n)) (elems arr))"

subsection \<open>lcmOfArray and hcfOfArray\<close>

text \<open>
  \<^verbatim>\<open>function lcmOfArray(arr) {
    if (!Array.isArray(arr) || arr.length === 0) return 0;
    const nums = arr.filter((n) => Number.isInteger(n) && n > 0);
    if (nums.length === 0) return 0;
    let result = nums[0];
    for (let i = 1; i < nums.length; i++)
      result = (result * nums[i]) / gcd(result, nums[i]);
    return result; }\<close>
  \<open>hcfOfArray\<close> is the same with \<open>result = gcd(result, nums[i])\<close>. The loops run over
  the elements after the first.
\<close>

fun lcm_loop :: "number \<Rightarrow> number list \<Rightarrow> number option" where
  "lcm_loop result [] = Some result"
| "lcm_loop result (x # xs) =
     (case gcd_js result x of
        None \<Rightarrow> None
      | Some g \<Rightarrow> lcm_loop (js_div (js_mul result x) g) xs)"

fun hcf_loop :: "number \<Rightarrow> number list \<Rightarrow> number option" where
  "hcf_loop result [] = Some result"
| "hcf_loop result (x # xs) =
     (case gcd_js result x of
        None \<Rightarrow> None
      | Some g \<Rightarrow> hcf_loop g xs)"

definition lcmOfArray :: "json \<Rightarrow> number option" where
  "lcmOfArray arr =
     (if \<not> isArray arr \<or> length (elems arr) = 0 then Some (Fin 0)
      else (case map the_num (filter positive_integer (elems arr)) of
              [] \<Rightarrow> Some (Fin 0)
            | n0 # rest \<Rightarrow> lcm_loop n0 rest))"

definition hcfOfArray :: "json \<Rightarrow> number option" where
  "hcfOfArray arr =
     (if \<not> isArray arr \<or> length (elems arr) = 0 then Some (Fin 0)
      else (case map the_num (filter positive_integer (elems arr)) of
              [] \<Rightarrow> Some (Fin 0)
            | n0 # rest \<Rightarrow> hcf_loop n0 rest))"


section \<open>Strings\<close>

text \<open>
  A string is the list of its UTF-16 code units, and a \<open>char\<close> stands for the code unit of
  the same number (below 256). The white space of \<open>trim\<close> and of \<open>\s\<close> in that range is
  tab, line feed, vertical tab, form feed, carriage return, space and no-break space.
\<close>

definition is_ws :: "char \<Rightarrow> bool" where
  "is_ws c = (of_char c \<in> {9, 10, 11, 12, 13, 32, 160 :: nat})"

definition trim :: "string \<Rightarrow> string" where
  "trim s = rev (dropWhile is_ws (rev (dropWhile is_ws s)))"

definition first_word :: "string \<Rightarrow> string" where
  \<comment> \<open>\<open>text.split(/\s+/)[0]\<close>\<close>
  "first_word s = takeWhile (\<lambda>c. \<not> is_ws c) s"

definition lower_char :: "char \<Rightarrow> char" where
  "lower_char c = (let n = (of_char c :: nat) in
     if (65 \<le> n \<and> n \<le> 90) \<or> (192 \<le> n \<and> n \<le> 222 \<and> n \<noteq> 215) then char_of (n + 32) else c)"

definition toLowerCase :: "string \<Rightarrow> string" where
  "toLowerCase s = map lower_char s"

fun string_of_nat :: "nat \<Rightarrow> string" where
  "string_of_nat n = (if n < 10 then [char_of (48 + n)]
     else string_of_nat (n div 10) @ [char_of (48 + n mod 10)])"

declare string_of_nat.simps [simp del]

fun object_keys :: "json \<Rightarrow> string list" where
  \<comment> \<open>\<open>Object.keys\<close>: the indices of an array or of a string, nothing for the other
      primitive values\<close>
  "object_keys (JObj kvs) = map fst kvs"
| "object_keys (JArr xs) = map string_of_nat [0..<length xs]"
| "object_keys (JStr s) = map string_of_nat [0..<length s]"
| "object_keys _ = []"

fun get_prop :: "json \<Rightarrow> string \<Rightarrow> json option" where
  \<comment> \<open>\<open>body[key]\<close>, read only from a body that has \<open>key\<close> among the keys the handler
      accepts\<close>
  "get_prop (JObj kvs) k = map_of kvs k"
| "get_prop _ k = None"

section \<open>The AI bridge\<close>

text \<open>
  The provider is outside the program: a call to \<open>generateContent\<close> with a prompt either
  rejects with an error that carries a message, or resolves to a response whose \<open>text\<close>
  may be missing. \<open>genAI\<close> is \<open>null\<close> unless \<open>GEMINI_API_KEY\<close> was set to a non-empty
  string when the process started.
\<close>

datatype provider_result = Rejected string | Resolved "string option"

type_synonym provider = "string \<Rightarrow> provider_result"

record config =
  OFFICIAL_EMAIL :: string
  genAI :: "provider option"

definition startup :: "string option \<Rightarrow> string option \<Rightarrow> provider \<Rightarrow> config" where
  \<comment> \<open>\<open>process.env.OFFICIAL_EMAIL\<close>, \<open>process.env.GEMINI_API_KEY\<close>, the provider's client\<close>
  "startup env_email env_key client =
     \<lparr>OFFICIAL_EMAIL = (case env_email of
          None \<Rightarrow> ''your.email@chitkara.edu.in''
        | Some e \<Rightarrow> if e = [] then ''your.email@chitkara.edu.in'' else e),
      genAI = (case env_key of
          None \<Rightarrow> None
        | Some k \<Rightarrow> if k = [] then None else Some client)\<rparr>"

definition prompt_suffix :: string where
  "prompt_suffix = [CHR 0x0A, CHR 0x0A] @
     ''Respond with only a single word answer. No explanation, no punctuation.''"

definition getAIResponse :: "config \<Rightarrow> json option \<Rightarrow> string option" where
  \<comment> \<open>\<open>None\<close> is \<open>null\<close>\<close>
  "getAIResponse cfg question =
     (case genAI cfg of
        None \<Rightarrow> None
      | Some generateContent \<Rightarrow>
          (case question of
             Some (JStr q) \<Rightarrow>
               (if q = [] then None
                else (case generateContent (q @ prompt_suffix) of
                        Rejected message \<Rightarrow> None
                      | Resolved None \<Rightarrow> None
                      | Resolved (Some t) \<Rightarrow>
                          (let text = trim t in
                           if text \<noteq> [] then Some (first_word text) else None)))
           | _ \<Rightarrow> None))"

section \<open>The handler of POST /bfhl in index.js\<close>

record response =
  status :: nat
  is_success :: bool
  official_email :: string
  data :: "json option"
  error :: "string option"

text \<open>
  \<open>res.status(s).json({is_success: false, official_email: OFFICIAL_EMAIL, error: msg})\<close>
  and \<open>res.status(200).json({is_success: true, official_email: OFFICIAL_EMAIL, data})\<close>.
  A field that is \<open>None\<close> is absent from the body. \<open>data\<close> is the value handed to
  \<open>json\<close>, which writes an infinity or NaN as \<open>null\<close>.
\<close>

definition fail :: "config \<Rightarrow> nat \<Rightarrow> string \<Rightarrow> response" where
  "fail cfg s msg = \<lparr>status = s, is_success = False, official_email = OFFICIAL_EMAIL cfg,
     data = None, error = Some msg\<rparr>"

definition succeed :: "config \<Rightarrow> json \<Rightarrow> response" where
  "succeed cfg d = \<lparr>status = 200, is_success = True, official_email = OFFICIAL_EMAIL cfg,
     data = Some d, error = None\<rparr>"

definition validKeys :: "string list" where
  "validKeys = [''fibonacci'', ''prime'', ''lcm'', ''hcf'', ''AI'', ''ai'']"

definition select_key :: "json \<Rightarrow> string option" where
  \<comment> \<open>\<open>keys.find((k) => validKeys.includes(k))\<close>, refused by
      \<open>!providedKey || keys.length > 1\<close>\<close>
  "select_key body = (let keys = object_keys body;
       providedKey = find (\<lambda>k. k \<in> set validKeys) keys
     in if providedKey = None \<or> length keys > 1 then None else providedKey)"

definition nullish_or :: "json option \<Rightarrow> json option \<Rightarrow> json option" where
  \<comment> \<open>\<open>a ?? b\<close>\<close>
  "nullish_or a b = (case a of None \<Rightarrow> b | Some JNull \<Rightarrow> b | Some v \<Rightarrow> Some v)"

definition switch_key :: "config \<Rightarrow> json \<Rightarrow> string \<Rightarrow> response option" where
  \<comment> \<open>the \<open>switch (key)\<close> and the final response; \<open>None\<close>: no response is ever sent\<close>
  "switch_key cfg body key =
     (if key = ''fibonacci'' then
        (case get_prop body key of
           Some (JNum val) \<Rightarrow>
             (if \<not> isInteger (JNum val) \<or> js_lt val (Fin 0) \<or> js_gt val (Fin 1000)
              then Some (fail cfg 400 ''fibonacci must be a non-negative integer (0-1000)'')
              else Some (succeed cfg (JArr (map JNum (fibonacci (the_int (JNum val)))))))
         | _ \<Rightarrow> Some (fail cfg 400 ''fibonacci must be a non-negative integer (0-1000)''))
      else if key = ''prime'' then
        (case get_prop body key of
           Some (JArr arr) \<Rightarrow>
             (let nums = filter (\<lambda>n. isInteger n \<and> js_ge (the_num n) (Fin 0)) arr in
              if length nums \<noteq> length arr
              then Some (fail cfg 400 ''prime array must contain only integers'')
              else if length arr > 100 then Some (fail cfg 400 ''prime array too large'')
              else Some (succeed cfg (JArr (filterPrimes (JArr arr)))))
         | _ \<Rightarrow> Some (fail cfg 400 ''prime must be an array of integers''))
      else if key = ''lcm'' then
        (case get_prop body key of
           Some (JArr arr) \<Rightarrow>
             (let nums = filter positive_integer arr in
              if length nums \<noteq> length arr
              then Some (fail cfg 400 ''lcm array must contain only positive integers'')
              else if length arr > 20 then Some (fail cfg 400 ''lcm array too large'')
              else (case lcmOfArray (JArr arr) of
                      None \<Rightarrow> None
                    | Some r \<Rightarrow> Some (succeed cfg (JNum r))))
         | _ \<Rightarrow> Some (fail cfg 400 ''lcm must be an array of integers''))
      else if key = ''hcf'' then
        (case get_prop body key of
           Some (JArr arr) \<Rightarrow>
             (let nums = filter positive_integer arr in
              if length nums \<noteq> length arr
              then Some (fail cfg 400 ''hcf array must contain only positive integers'')
              else if length arr > 20 then Some (fail cfg 400 ''hcf array too large'')
              else (case hcfOfArray (JArr arr) of
                      None \<Rightarrow> None
                    | Some r \<Rightarrow> Some (succeed cfg (JNum r))))
         | _ \<Rightarrow> Some (fail cfg 400 ''hcf must be an array of integers''))
      else if key = ''AI'' then
        (case nullish_or (get_prop body key) (get_prop body ''ai'') of
           Some (JStr question) \<Rightarrow>
             (if length (trim question) = 0
              then Some (fail cfg 400 ''AI must receive a non-empty string question'')
              else if length question > 500 then Some (fail cfg 400 ''Question too long'')
              else (case getAIResponse cfg (Some (JStr (trim question))) of
                      None \<Rightarrow> Some (fail cfg 503
                        ''AI service unavailable. Set GEMINI_API_KEY environment variable.'')
                    | Some answer \<Rightarrow> Some (succeed cfg (JStr answer))))
         | _ \<Rightarrow> Some (fail cfg 400 ''AI must receive a non-empty string question''))
      else Some (fail cfg 400 ''Invalid key''))"

definition post_bfhl :: "config \<Rightarrow> json option \<Rightarrow> response option" where
  \<comment> \<open>the body is \<open>None\<close> when \<open>req.body\<close> is \<open>undefined\<close>; only an object or an array
      passes \<open>!body || typeof body !== 'object'\<close>\<close>
  "post_bfhl cfg req_body =
     (case req_body of
        Some body \<Rightarrow>
          (if \<not> (isArray body \<or> (case body of JObj kvs \<Rightarrow> True | _ \<Rightarrow> False))
           then Some (fail cfg 400 ''Invalid request body'')
           else (case select_key body of
                   None \<Rightarrow> Some (fail cfg 400
                     ''Request must contain exactly one of: fibonacci, prime, lcm, hcf, AI'')
                 | Some providedKey \<Rightarrow>
                     switch_key cfg body
                       (if toLowerCase providedKey = ''ai'' then ''AI'' else providedKey)))
      | None \<Rightarrow> Some (fail cfg 400 ''Invalid request body''))"

section \<open>The second variant (part\_000)\<close>

text \<open>
  \<open>fibonacci\<close>, \<open>isPrime\<close>, \<open>filterPrimes\<close> and \<open>gcd\<close> are the same text as in
  index.js. \<open>lcmOfArray\<close> and \<open>hcfOfArray\<close> fold over the array as it came, so an
  element need not be a number: \<open>*\<close>, \<open>%\<close> and \<open>Math.abs\<close> convert it first. The
  conversion of a string, an array or an object is the parameter \<open>coerce\<close>. It stands
  for the conversions that return a number: the conversion of an object whose own
  \<open>toString\<close> is not a function throws a TypeError, which the \<open>catch\<close> of the handler
  answers with the same 400 envelope as the errors thrown by the \<open>switch\<close>.
  \<^verbatim>\<open>function lcmOfArray(arr) {
    if (!Array.isArray(arr) || arr.length === 0) return 0;
    let result = arr[0];
    for (let i = 1; i < arr.length; i++)
      result = (result * arr[i]) / gcd(result, arr[i]);
    return result; }\<close>
\<close>

fun toNumber :: "(json \<Rightarrow> number) \<Rightarrow> json \<Rightarrow> number" where
  "toNumber coerce (JNum x) = x"
| "toNumber coerce JNull = Fin 0"
| "toNumber coerce (JBool b) = Fin (if b then 1 else 0)"
| "toNumber coerce v = coerce v"

definition gcd_v2 :: "(json \<Rightarrow> number) \<Rightarrow> json \<Rightarrow> json \<Rightarrow> number option" where
  "gcd_v2 coerce a b = gcd_loop (js_abs (toNumber coerce a)) (js_abs (toNumber coerce b))"

fun lcm_loop_v2 :: "(json \<Rightarrow> number) \<Rightarrow> json \<Rightarrow> json list \<Rightarrow> json option" where
  "lcm_loop_v2 coerce result [] = Some result"
| "lcm_loop_v2 coerce result (x # xs) =
     (case gcd_v2 coerce result x of
        None \<Rightarrow> None
      | Some g \<Rightarrow>
          lcm_loop_v2 coerce
            (JNum (js_div (js_mul (toNumber coerce result) (toNumber coerce x)) g)) xs)"

fun hcf_loop_v2 :: "(json \<Rightarrow> number) \<Rightarrow> json \<Rightarrow> json list \<Rightarrow> json option" where
  "hcf_loop_v2 coerce result [] = Some result"
| "hcf_loop_v2 coerce result (x # xs) =
     (case gcd_v2 coerce result x of
        None \<Rightarrow> None
      | Some g \<Rightarrow> hcf_loop_v2 coerce (JNum g) xs)"

definition lcmOfArray_v2 :: "(json \<Rightarrow> number) \<Rightarrow> json option \<Rightarrow> json option" where
  \<comment> \<open>the argument is \<open>None\<close> when it is \<open>undefined\<close>; the result \<open>None\<close>: never returns\<close>
  "lcmOfArray_v2 coerce arr =
     (case arr of
        Some (JArr (a0 # rest)) \<Rightarrow> lcm_loop_v2 coerce a0 rest
      | _ \<Rightarrow> Some (JNum (Fin 0)))"

definition hcfOfArray_v2 :: "(json \<Rightarrow> number) \<Rightarrow> json option \<Rightarrow> json option" where
  "hcfOfArray_v2 coerce arr =
     (case arr of
        Some (JArr (a0 # rest)) \<Rightarrow> hcf_loop_v2 coerce a0 rest
      | _ \<Rightarrow> Some (JNum (Fin 0)))"

definition prompt_suffix_v2 :: string where
  "prompt_suffix_v2 = [CHR 0x0A] @ ''Respond with only ONE WORD. No punctuation.''"

definition getAIResponse_v2 :: "config \<Rightarrow> json option \<Rightarrow> string option" where
  "getAIResponse_v2 cfg question =
     (case genAI cfg of
        None \<Rightarrow> None
      | Some generateContent \<Rightarrow>
          (case question of
             Some (JStr q) \<Rightarrow>
               (if q = [] then None
                else (case generateContent (q @ prompt_suffix_v2) of
                        Rejected message \<Rightarrow> None
                      | Resolved None \<Rightarrow> None
                      | Resolved (Some t) \<Rightarrow>
                          (let text = trim t in
                           if text \<noteq> [] then Some (first_word text) else None)))
           | _ \<Rightarrow> None))"

definition select_key_v2 :: "json \<Rightarrow> string option" where
  \<comment> \<open>refused by \<open>!providedKey || keys.length !== 1\<close>\<close>
  "select_key_v2 body = (let keys = object_keys body;
       providedKey = find (\<lambda>k. k \<in> set validKeys) keys
     in if providedKey = None \<or> length keys \<noteq> 1 then None else providedKey)"

definition switch_key_v2 ::
    "(json \<Rightarrow> number) \<Rightarrow> config \<Rightarrow> json \<Rightarrow> string \<Rightarrow> (string + response) option" where
  \<comment> \<open>\<open>Inl msg\<close> is \<open>throw new Error(msg)\<close>; \<open>None\<close>: no response is ever sent. The
      \<open>switch\<close> has no \<open>default\<close>: past it \<open>data\<close> is still \<open>undefined\<close> and absent
      from the body\<close>
  "switch_key_v2 coerce cfg body key =
     (if key = ''fibonacci'' then
        (case get_prop body key of
           Some (JNum val) \<Rightarrow>
             (if \<not> isInteger (JNum val) \<or> js_lt val (Fin 0) \<or> js_gt val (Fin 1000)
              then Some (Inl ''Invalid fibonacci input'')
              else Some (Inr (succeed cfg (JArr (map JNum (fibonacci (the_int (JNum val))))))))
         | _ \<Rightarrow> Some (Inl ''Invalid fibonacci input''))
      else if key = ''prime'' then
        (case get_prop body key of
           Some (JArr arr) \<Rightarrow> Some (Inr (succeed cfg (JArr (filterPrimes (JArr arr)))))
         | _ \<Rightarrow> Some (Inl ''Prime must be array''))
      else if key = ''lcm'' then
        (case lcmOfArray_v2 coerce (get_prop body key) of
           None \<Rightarrow> None
         | Some r \<Rightarrow> Some (Inr (succeed cfg r)))
      else if key = ''hcf'' then
        (case hcfOfArray_v2 coerce (get_prop body key) of
           None \<Rightarrow> None
         | Some r \<Rightarrow> Some (Inr (succeed cfg r)))
      else if key = ''AI'' then
        (case getAIResponse_v2 cfg (get_prop body key) of
           None \<Rightarrow> Some (Inr (fail cfg 503 ''AI service unavailable''))
         | Some answer \<Rightarrow>
             (if answer = [] then Some (Inr (fail cfg 503 ''AI service unavailable''))
              else Some (Inr (succeed cfg (JStr answer)))))
      else Some (Inr \<lparr>status = 200, is_success = True, official_email = OFFICIAL_EMAIL cfg,
             data = None, error = None\<rparr>))"

fun falsy :: "json \<Rightarrow> bool" where
  "falsy JNull = True"
| "falsy (JBool b) = (\<not> b)"
| "falsy (JNum x) = (x = Fin 0 \<or> x = NaN)"
| "falsy (JStr s) = (s = [])"
| "falsy _ = False"

definition post_bfhl_v2 :: "(json \<Rightarrow> number) \<Rightarrow> config \<Rightarrow> json option \<Rightarrow> response option" where
  \<comment> \<open>\<open>Object.keys(body || {})\<close>; the \<open>catch\<close> answers 400 with \<open>err.message\<close>\<close>
  "post_bfhl_v2 coerce cfg req_body =
     (let body = (case req_body of
                    None \<Rightarrow> JObj []
                  | Some b \<Rightarrow> if falsy b then JObj [] else b)
      in case select_key_v2 body of
           None \<Rightarrow> Some (fail cfg 400
             ''Request must contain exactly one of: fibonacci, prime, lcm, hcf, AI'')
         | Some providedKey \<Rightarrow>
             (case switch_key_v2 coerce cfg body
                     (if toLowerCase providedKey = ''ai'' then ''AI'' else providedKey) of
                None \<Rightarrow> None
              | Some (Inl message) \<Rightarrow> Some (fail cfg 400 message)
              | Some (Inr r) \<Rightarrow> Some r))"

section \<open>What the specification says\<close>

text \<open>The Euclidean algorithm on natural numbers.\<close>

fun euclid :: "nat \<Rightarrow> nat \<Rightarrow> nat" where
  "euclid a b = (if b = 0 then a else euclid b (a mod b))"

declare euclid.simps [simp del]

text \<open>A prime: at least 2, with no divisor other than 1 and itself.\<close>

definition is_prime :: "int \<Rightarrow> bool" where
  "is_prime p = (2 \<le> p \<and> (\<forall>d \<in> {1..p}. d dvd p \<longrightarrow> d = 1 \<or> d = p))"

text \<open>The Fibonacci numbers \<open>0, 1, 1, 2, \<dots>\<close>\<close>

fun fib :: "nat \<Rightarrow> int" where
  "fib 0 = 0"
| "fib (Suc 0) = 1"
| "fib (Suc (Suc n)) = fib (Suc n) + fib n"

fun fib_iter :: "nat \<Rightarrow> int \<Rightarrow> int \<Rightarrow> int" where
  \<comment> \<open>the same numbers, computed in one pass\<close>
  "fib_iter 0 a b = a"
| "fib_iter (Suc n) a b = fib_iter n b (a + b)"

text \<open>
  The products \<open>result * nums[i]\<close> of the fold of pairwise least common multiples, on
  integers: none of them is above \<open>2^53\<close>.
\<close>

fun products_exact :: "int \<Rightarrow> int list \<Rightarrow> bool" where
  "products_exact r [] = True"
| "products_exact r (x # xs) = (r * x \<le> 2 ^ 53 \<and> products_exact (lcm r x) xs)"

text \<open>
  A valid payload (section 3 of the specification): for \<open>fibonacci\<close> a non-negative
  integer up to 1000; for \<open>prime\<close> at most 100 non-negative integers; for \<open>lcm\<close> and
  \<open>hcf\<close> at most 20 strictly positive integers; for the AI key a non-empty string of at
  most 500 characters.
\<close>

definition valid_payload :: "string \<Rightarrow> json \<Rightarrow> bool" where
  "valid_payload key v =
     (if key = ''fibonacci'' then
        isInteger v \<and> js_ge (the_num v) (Fin 0) \<and> js_le (the_num v) (Fin 1000)
      else if key = ''prime'' then
        isArray v \<and> list_all (\<lambda>n. isInteger n \<and> js_ge (the_num n) (Fin 0)) (elems v)
          \<and> length (elems v) \<le> 100
      else if key = ''lcm'' \<or> key = ''hcf'' then
        isArray v \<and> list_all positive_integer (elems v) \<and> length (elems v) \<le> 20
      else if key = ''AI'' \<or> key = ''ai'' then
        (case v of JStr q \<Rightarrow> q \<noteq> [] \<and> length q \<le> 500 | _ \<Rightarrow> False)
      else False)"

text \<open>
  The envelope invariant: exactly one of \<open>data\<close> and \<open>error\<close> is present, \<open>data\<close> with
  \<open>is_success: true\<close> and \<open>error\<close> (a string, by its type) with \<open>is_success: false\<close>.
\<close>

definition envelope_ok :: "response \<Rightarrow> bool" where
  "envelope_ok r = ((data r \<noteq> None) = is_success r \<and> (error r \<noteq> None) = (\<not> is_success r))"

text \<open>
  The AI bridge is unavailable for a question: no credential, an error of the provider, no
  text, or text with nothing but white space.
\<close>

definition unavailable :: "config \<Rightarrow> string \<Rightarrow> bool" where
  "unavailable cfg question =
     (case genAI cfg of
        None \<Rightarrow> True
      | Some generateContent \<Rightarrow>
          (case generateContent (question @ prompt_suffix) of
             Rejected message \<Rightarrow> True
           | Resolved None \<Rightarrow> True
           | Resolved (Some t) \<Rightarrow> trim t = []))"

text \<open>The largest power of two that is a double.\<close>

definition largest_power :: int where
  "largest_power = 2 ^ 1023"

text \<open>Two providers to run the handler with: one that fails, one that answers.\<close>

definition failing_client :: provider where
  "failing_client prompt = Rejected ''fetch failed''"

definition answering_client :: provider where
  "answering_client prompt = Resolved (Some '' Mumbai, of course. '')"

section \<open>Properties of the number model\<close>

subsection \<open>Integers up to \<open>2^53\<close> are not rounded\<close>

lemma ilog2_of_int:
  assumes "0 < n"
  shows "ilog2 (of_int n) = bitlen n - 1"
proof -
  have b1: "bitlen 1 = 1" by (simp add: bitlen_alt_def)
  have ge: "1 \<le> bitlen n" using assms by (simp add: bitlen_alt_def)
  have "(2::int) ^ nat (bitlen n - 1) \<le> n" using bitlen_bounds [OF assms] by simp
  then have "(of_int ((2::int) ^ nat (bitlen n - 1)) :: rat) \<le> of_int n"
    by (simp only: of_int_le_iff)
  then have "pow2 (bitlen n - 1) \<le> of_int n" using ge by (simp add: pow2_def)
  then show ?thesis by (simp add: ilog2_def b1)
qed

lemma round_half_even_of_int: "round_half_even (of_int m) = m"
  by (simp add: round_half_even_def)

lemma bitlen_le_54:
  assumes "0 < a" "a \<le> 2 ^ 53"
  shows "bitlen a \<le> 54"
proof (rule ccontr)
  assume "\<not> bitlen a \<le> 54"
  then have "54 \<le> nat (bitlen a - 1)" by simp
  then have "(2::int) ^ 54 \<le> 2 ^ nat (bitlen a - 1)" by (intro power_increasing) simp_all
  also have "\<dots> \<le> a" using bitlen_bounds [OF assms(1)] by simp
  finally show False using assms(2) by simp
qed

lemma round_double_pos_int:
  assumes "0 < a" "a \<le> 2 ^ 53"
  shows "round_double (of_int a) = Fin (of_int a)"
proof -
  define e where "e = bitlen a - 1"
  have e: "ilog2 (of_int a) = e" using assms(1) by (simp add: ilog2_of_int e_def)
  have e0: "0 \<le> e" using assms(1) by (simp add: e_def bitlen_alt_def)
  have e53: "e \<le> 53" using bitlen_le_54 [OF assms] by (simp add: e_def)
  define q where "q = max (e - 52) (- 1074)"
  have q: "q = e - 52" using e0 by (simp add: q_def)
  have r: "of_int (round_half_even (of_int a / pow2 q)) * pow2 q = (of_int a :: rat)"
  proof (cases "e \<le> 52")
    case True
    then have p: "pow2 q = 1 / 2 ^ nat (52 - e)" by (simp add: pow2_def q) 
    have "(of_int a :: rat) / pow2 q = of_int (a * 2 ^ nat (52 - e))"
      by (simp add: p)
    then have "round_half_even (of_int a / pow2 q) = a * 2 ^ nat (52 - e)"
      by (simp only: round_half_even_of_int)
    then show ?thesis by (simp add: p)
  next
    case False
    with e53 have e': "e = 53" by simp
    then have "(2::int) ^ 53 \<le> a" using bitlen_bounds [OF assms(1)] by (simp add: e_def)
    with assms(2) have a: "a = 2 ^ 53" by simp
    have p: "pow2 q = 2" by (simp add: q e' pow2_def)
    have "(of_int a :: rat) / pow2 q = of_int (2 ^ 52)" by (simp add: p a)
    then have "round_half_even (of_int a / pow2 q) = 2 ^ 52"
      by (simp only: round_half_even_of_int)
    then show ?thesis by (simp add: p a)
  qed
  have "(of_int a :: rat) \<le> of_int (2 ^ 53)" using assms(2) by (simp only: of_int_le_iff)
  also have "\<dots> < pow2 1024" by (simp add: pow2_def)
  finally have lt: "\<not> pow2 1024 \<le> (of_int a :: rat)" by simp
  have pos: "(0::rat) < of_int a" using assms(1) by simp
  have ne: "(of_int a :: rat) \<noteq> 0" using assms(1) by simp
  have ab: "\<bar>of_int a :: rat\<bar> = of_int a" using assms(1) by simp
  have "round_double (of_int a) =
      (if pow2 1024 \<le> (of_int a :: rat) then (if (0::rat) < of_int a then PInf else NInf)
       else Fin (if (0::rat) < of_int a then of_int a else - of_int a))"
    using ne by (simp only: round_double_def Let_def ab e q_def [symmetric] r if_False)
  then show ?thesis using lt pos by simp
qed


subsection \<open>The loop of gcd on integers\<close>

lemma js_rem_num:
  assumes "0 \<le> a" "0 < b"
  shows "js_rem (num a) (num b) = num (a mod b)"
proof -
  have "(of_int a :: rat) / of_int b \<ge> 0" using assms by simp
  then have "trunc (of_int a / of_int b) = a div b"
    by (simp add: trunc_def floor_divide_of_int_eq)
  moreover have "a mod b = a - b * (a div b)"
    by (simp add: minus_mult_div_eq_mod)
  ultimately show ?thesis using assms by simp
qed

lemma gcd_loop_num:
  "0 \<le> a \<Longrightarrow> 0 \<le> b \<Longrightarrow> gcd_loop (num a) (num b) = Some (num (gcd a b))"
proof (induction "nat b" arbitrary: a b rule: less_induct)
  case less
  show ?case
  proof (cases "b = 0")
    case True
    with less.prems show ?thesis by (subst gcd_loop.simps) simp
  next
    case False
    with less.prems have b: "0 < b" by simp
    have m: "0 \<le> a mod b" "a mod b < b" using b by simp_all
    have "gcd_loop (num b) (num (a mod b)) = Some (num (gcd b (a mod b)))"
      using less.hyps [of "a mod b" b] m b by simp
    moreover have "gcd b (a mod b) = gcd a b"
      using gcd_red_int [of a b] by simp
    moreover have "js_rem (num a) (num b) = num (a mod b)"
      using less.prems b by (intro js_rem_num) simp_all
    moreover have "gcd_loop (num a) (num b) = gcd_loop (num b) (js_rem (num a) (num b))"
      using b by (subst gcd_loop.simps) (simp del: js_rem.simps)
    ultimately show ?thesis by simp
  qed
qed

lemma gcd_js_num: "gcd_js (num a) (num b) = Some (num (gcd a b))"
proof -
  have "gcd_loop (num \<bar>a\<bar>) (num \<bar>b\<bar>) = Some (num (gcd \<bar>a\<bar> \<bar>b\<bar>))"
    by (rule gcd_loop_num) simp_all
  then show ?thesis by (simp add: gcd_js_def)
qed


section \<open>gcd\<close>

lemma euclid_gcd: "euclid a b = gcd a b"
proof (induction a b rule: euclid.induct)
  case (1 a b)
  show ?case
  proof (cases "b = 0")
    case True
    then show ?thesis by (simp add: euclid.simps)
  next
    case False
    with 1 have "euclid b (a mod b) = gcd b (a mod b)" by simp
    moreover have "gcd b (a mod b) = gcd a b"
      using gcd_red_nat [of a b] by simp
    ultimately show ?thesis
      using False by (subst euclid.simps) simp
  qed
qed

text \<open>
  C9. On integers \<open>gcd\<close> returns, and \<open>gcd(a, b) = gcd(b, a)\<close>,
  \<open>gcd(a, 0) = |a|\<close>, and the result is what the Euclidean algorithm gives on the
  absolute values of the arguments.
\<close>

theorem gcd_js_commutes_abs_euclid:
  "gcd_js (num a) (num b) = gcd_js (num b) (num a)
   \<and> gcd_js (num a) (Fin 0) = Some (num \<bar>a\<bar>)
   \<and> gcd_js (num a) (num b) = Some (num (int (euclid (nat \<bar>a\<bar>) (nat \<bar>b\<bar>))))"
proof -
  have "gcd_js (num a) (num b) = gcd_js (num b) (num a)"
    by (simp only: gcd_js_num gcd.commute [of a b])
  moreover have "gcd_js (num a) (Fin 0) = Some (num \<bar>a\<bar>)"
    using gcd_js_num [of a 0] by simp
  moreover have "int (euclid (nat \<bar>a\<bar>) (nat \<bar>b\<bar>)) = gcd a b"
    by (simp only: euclid_gcd gcd_int_def)
  ultimately show ?thesis by (simp only: gcd_js_num) 
qed

section \<open>hcfOfArray\<close>

lemma positive_integer_num [simp]: "positive_integer (JNum (num x)) = (0 < x)"
  by (simp add: positive_integer_def js_gt_def)

lemma the_num_num [simp]: "the_num (JNum (num x)) = num x"
  by simp

lemma filter_positive_nums:
  "\<forall>x\<in>set xs. 0 < x \<Longrightarrow>
   map the_num (filter positive_integer (map (\<lambda>x. JNum (num x)) xs)) = map num xs"
  by (induction xs) simp_all

lemma hcf_loop_num:
  "0 < (r::int) \<Longrightarrow> hcf_loop (num r) (map num xs) = Some (num (fold (\<lambda>x r. gcd r x) xs r))"
proof (induction xs arbitrary: r)
  case Nil
  then show ?case by simp
next
  case (Cons x xs)
  have "0 < gcd r x" using Cons.prems by simp
  then show ?case using Cons.IH [of "gcd r x"] by (simp add: gcd_js_num)
qed

lemma fold_gcd_dvd:
  "fold (\<lambda>x r. gcd r x) xs r dvd (r::int) \<and> (\<forall>x\<in>set xs. fold (\<lambda>x r. gcd r x) xs r dvd x)"
proof (induction xs arbitrary: r)
  case Nil
  show ?case by simp
next
  case (Cons x xs)
  have a: "fold (\<lambda>x r. gcd r x) xs (gcd r x) dvd gcd r x" using Cons.IH by blast
  have b: "\<forall>y\<in>set xs. fold (\<lambda>x r. gcd r x) xs (gcd r x) dvd y" using Cons.IH by blast
  have "fold (\<lambda>x r. gcd r x) xs (gcd r x) dvd r"
    using a gcd_dvd1 [of r x] by (rule dvd_trans)
  moreover have "fold (\<lambda>x r. gcd r x) xs (gcd r x) dvd x"
    using a gcd_dvd2 [of r x] by (rule dvd_trans)
  ultimately show ?case using b by simp
qed

text \<open>
  C8. For a non-empty array of strictly positive integers \<open>hcfOfArray\<close> returns the
  left fold of the pairwise gcd over the array, and that value divides every element of the
  array; for an empty array and for an argument that is not an array it returns 0.
\<close>

theorem hcfOfArray_divides_every_element:
  "(xs \<noteq> [] \<and> (\<forall>x\<in>set xs. 0 < x) \<longrightarrow>
      hcfOfArray (JArr (map (\<lambda>x. JNum (num x)) xs))
        = Some (num (fold (\<lambda>x r. gcd r x) (tl xs) (hd xs)))
      \<and> (\<forall>x\<in>set xs. fold (\<lambda>x r. gcd r x) (tl xs) (hd xs) dvd (x::int)))
   \<and> hcfOfArray (JArr []) = Some (Fin 0)
   \<and> (\<not> isArray v \<longrightarrow> hcfOfArray v = Some (Fin 0))"
proof (intro conjI impI)
  assume a: "xs \<noteq> [] \<and> (\<forall>x\<in>set xs. 0 < x)"
  then obtain y ys where xs: "xs = y # ys" by (cases xs) auto
  with a have pos: "0 < y" "\<forall>x\<in>set ys. 0 < x" by simp_all
  have f: "map the_num (filter positive_integer (map (\<lambda>x. JNum (num x)) xs)) = map num xs"
    using a by (intro filter_positive_nums) simp
  have "hcfOfArray (JArr (map (\<lambda>x. JNum (num x)) xs)) = hcf_loop (num y) (map num ys)"
    unfolding hcfOfArray_def isArray.simps elems.simps f by (simp add: xs)
  then show "hcfOfArray (JArr (map (\<lambda>x. JNum (num x)) xs))
        = Some (num (fold (\<lambda>x r. gcd r x) (tl xs) (hd xs)))"
    using pos by (simp add: xs hcf_loop_num)
  show "\<forall>x\<in>set xs. fold (\<lambda>x r. gcd r x) (tl xs) (hd xs) dvd x"
    using fold_gcd_dvd [of ys y] by (simp add: xs)
next
  show "hcfOfArray (JArr []) = Some (Fin 0)" by (simp add: hcfOfArray_def)
next
  assume "\<not> isArray v"
  then show "hcfOfArray v = Some (Fin 0)" by (simp add: hcfOfArray_def)
qed

theorem hcfOfArray_divides_every_element_witness:
  "hcfOfArray (JArr (map (\<lambda>x. JNum (num x)) [24, 36, 60])) = Some (num 12)
   \<and> (12::int) dvd 24 \<and> (12::int) dvd 36 \<and> (12::int) dvd 60
   \<and> hcfOfArray (JStr ''24'') = Some (Fin 0)"
proof -
  have "fold (\<lambda>x r. gcd r x) (tl [24, 36, 60]) (hd [24, 36, 60]) = (12::int)"
    by code_simp
  then show ?thesis
    using hcfOfArray_divides_every_element [of "[24, 36, 60]" "JStr ''24''"]
    by simp
qed


section \<open>Rounding of larger integers\<close>

lemma round_half_even_div:
  assumes "0 < d"
  shows "round_half_even (of_int a / of_int d) = round_div a d"
proof -
  have f: "\<lfloor>(of_int a :: rat) / of_int d\<rfloor> = a div d"
    by (simp add: floor_divide_of_int_eq)
  have "(of_int a :: rat) = of_int (d * (a div d) + a mod d)" by simp
  also have "\<dots> = of_int d * of_int (a div d) + of_int (a mod d)" by (simp only: of_int_add of_int_mult)
  finally have "(of_int a :: rat) / of_int d = of_int (a div d) + of_int (a mod d) / of_int d"
    using assms by (simp add: field_simps)
  then have d: "(of_int a :: rat) / of_int d - of_int (a div d) = of_int (a mod d) / of_int d"
    by simp
  have lt: "(of_int (a mod d) / of_int d < (1::rat) / 2) = (2 * (a mod d) < d)"
  proof -
    have "(of_int (a mod d) / of_int d < (1::rat) / 2) = ((of_int (2 * (a mod d)) :: rat) < of_int d)"
      using assms by (simp add: field_simps)
    then show ?thesis by (simp only: of_int_less_iff)
  qed
  have gt: "((1::rat) / 2 < of_int (a mod d) / of_int d) = (d < 2 * (a mod d))"
  proof -
    have "((1::rat) / 2 < of_int (a mod d) / of_int d) = ((of_int d :: rat) < of_int (2 * (a mod d)))"
      using assms by (simp add: field_simps)
    then show ?thesis by (simp only: of_int_less_iff)
  qed
  show ?thesis
    unfolding round_half_even_def round_div_def Let_def f d lt gt ..
qed

lemma round_double_big_int:
  assumes "0 < a" "bitlen a = 53 + int k" "0 < k" "k \<le> 970"
  shows "round_double (of_int a) = num (round_div a (2 ^ k) * 2 ^ k)"
proof -
  have e: "ilog2 (of_int a) = 52 + int k" using assms(1,2) by (simp add: ilog2_of_int)
  have q: "max (52 + int k - 52) (- 1074) = int k" by simp
  have p: "pow2 (int k) = of_int (2 ^ k)" by (simp add: pow2_def)
  have r: "round_half_even (of_int a / pow2 (int k)) = round_div a (2 ^ k)"
    unfolding p by (rule round_half_even_div) simp
  have up: "a < 2 ^ (53 + k)"
    using bitlen_bounds [OF assms(1)] assms(2) by (simp add: nat_add_distrib)
  have "a div 2 ^ k < 2 ^ 53"
  proof -
    have "a < 2 ^ k * 2 ^ 53" using up by (simp add: power_add)
    moreover have "2 ^ k * (a div 2 ^ k) + a mod 2 ^ k = a" by simp
    moreover have "0 \<le> a mod 2 ^ k" by simp
    ultimately have "2 ^ k * (a div 2 ^ k) < 2 ^ k * (2 ^ 53 :: int)" by linarith
    then show ?thesis by (simp only: mult_less_cancel_left_pos zero_less_power zero_less_numeral)
  qed
  then have m: "round_div a (2 ^ k) \<le> 2 ^ 53"
    by (simp add: round_div_def Let_def)
  have "round_div a (2 ^ k) * 2 ^ k \<le> 2 ^ 53 * (2 ^ k :: int)"
    using m by (intro mult_right_mono) simp_all
  also have "\<dots> = 2 ^ (53 + k)" by (simp add: power_add)
  also have "\<dots> < (2 ^ 1024 :: int)" using assms(4) by (intro power_strict_increasing) simp_all
  finally have "(of_int (round_div a (2 ^ k) * 2 ^ k) :: rat) < of_int (2 ^ 1024)"
    by (simp only: of_int_less_iff)
  then have lt: "\<not> pow2 1024 \<le> of_int (round_div a (2 ^ k)) * pow2 (int k)"
    unfolding p by (simp add: pow2_def)
  have pos: "(0::rat) < of_int a" using assms(1) by simp
  have ne: "(of_int a :: rat) \<noteq> 0" using assms(1) by simp
  have ab: "\<bar>of_int a :: rat\<bar> = of_int a" using assms(1) by simp
  have "round_double (of_int a) = Fin (of_int (round_div a (2 ^ k)) * pow2 (int k))"
    using ne lt pos by (simp only: round_double_def Let_def ab e q r if_False if_True)
  then show ?thesis by (simp add: p)
qed


section \<open>lcmOfArray\<close>

lemma js_mul_exact:
  assumes "0 < r" "0 < x" "r * x \<le> 2 ^ 53"
  shows "js_mul (num r) (num x) = num (r * x)"
proof -
  have "0 < r * x" using assms by simp
  then have "round_double (of_int (r * x)) = num (r * x)"
    using assms(3) by (rule round_double_pos_int)
  then show ?thesis by simp
qed

lemma js_div_exact:
  assumes "0 < p" "p \<le> 2 ^ 53" "0 < g" "g dvd p"
  shows "js_div (num p) (num g) = num (p div g)"
proof -
  have q: "(of_int p :: rat) / of_int g = of_int (p div g)"
    using assms(3,4) by auto
  have "g \<le> p" using assms by (simp add: zdvd_imp_le)
  then have "0 < p div g" using assms(3) by (simp add: pos_imp_zdiv_pos_iff)
  moreover have "p div g \<le> p" using zdiv_mono2 [of p 1 g] assms(1,3) by simp
  ultimately have "round_double (of_int (p div g)) = num (p div g)"
    using assms(2) by (intro round_double_pos_int) simp_all
  then show ?thesis using assms(3) q by simp
qed

lemma lcm_step_exact:
  assumes "0 < r" "0 < x" "r * x \<le> 2 ^ 53"
  shows "js_div (js_mul (num r) (num x)) (num (gcd r x)) = num (lcm r x)"
proof -
  have g: "0 < gcd r x" using assms by simp
  have d: "gcd r x dvd r * x" by simp
  have "lcm r x = r * x div gcd r x"
    using assms by (simp add: lcm_altdef_int)
  moreover have "js_div (num (r * x)) (num (gcd r x)) = num (r * x div gcd r x)"
    using assms g d by (intro js_div_exact) simp_all
  ultimately show ?thesis using assms by (simp only: js_mul_exact)
qed

lemma lcm_loop_num:
  "0 < r \<Longrightarrow> \<forall>x\<in>set xs. 0 < x \<Longrightarrow> products_exact r xs \<Longrightarrow>
   lcm_loop (num r) (map num xs) = Some (num (fold (\<lambda>x r. lcm r x) xs r))"
proof (induction xs arbitrary: r)
  case Nil
  then show ?case by simp
next
  case (Cons x xs)
  have x: "0 < x" and le: "r * x \<le> 2 ^ 53" using Cons.prems by simp_all
  have l: "0 < lcm r x" using Cons.prems(1) x by (simp add: lcm_pos_int)
  have "lcm_loop (num (lcm r x)) (map num xs) = Some (num (fold (\<lambda>x r. lcm r x) xs (lcm r x)))"
    using Cons.prems l by (intro Cons.IH) simp_all
  moreover have "js_div (js_mul (num r) (num x)) (num (gcd r x)) = num (lcm r x)"
    using Cons.prems(1) x le by (rule lcm_step_exact)
  ultimately show ?case
    by (simp only: list.map lcm_loop.simps gcd_js_num option.case fold_simps)
qed

lemma fold_lcm_least:
  "0 < (r::int) \<Longrightarrow> \<forall>x\<in>set xs. 0 < x \<Longrightarrow>
   0 < fold (\<lambda>x r. lcm r x) xs r
   \<and> r dvd fold (\<lambda>x r. lcm r x) xs r
   \<and> (\<forall>x\<in>set xs. x dvd fold (\<lambda>x r. lcm r x) xs r)
   \<and> (\<forall>m. r dvd m \<and> (\<forall>x\<in>set xs. x dvd m) \<longrightarrow> fold (\<lambda>x r. lcm r x) xs r dvd m)"
proof (induction xs arbitrary: r)
  case Nil
  then show ?case by simp
next
  case (Cons x xs)
  let ?L = "fold (\<lambda>x r. lcm r x) xs (lcm r x)"
  have l: "0 < lcm r x" using Cons.prems by (simp add: lcm_pos_int)
  have ih: "0 < ?L" "lcm r x dvd ?L" "\<forall>y\<in>set xs. y dvd ?L"
    "\<forall>m. lcm r x dvd m \<and> (\<forall>y\<in>set xs. y dvd m) \<longrightarrow> ?L dvd m"
    using Cons.IH [OF l] Cons.prems(2) by simp_all
  have "r dvd ?L" using dvd_lcm1 [of r x] ih(2) by (rule dvd_trans)
  moreover have "x dvd ?L" using dvd_lcm2 [of x r] ih(2) by (rule dvd_trans)
  moreover have "?L dvd m" if "r dvd m" "\<forall>y\<in>set (x # xs). y dvd m" for m
  proof -
    have "lcm r x dvd m" using that by (simp add: lcm_least)
    then show ?thesis using ih(4) that(2) by simp
  qed
  ultimately show ?case using ih(1,3) by simp
qed

text \<open>
  C7, as amended. For a non-empty array of strictly positive integers whose products
  \<open>result * nums[i]\<close> all stay at or below \<open>2^53\<close>, \<open>lcmOfArray\<close> returns the left fold
  of the pairwise least common multiple, which is positive, is divisible by every element,
  and is the least positive value that is; for an empty array and for an argument that is
  not an array it returns 0.
\<close>

theorem lcmOfArray_least_common_multiple_when_exact:
  "(xs \<noteq> [] \<and> (\<forall>x\<in>set xs. 0 < x) \<and> products_exact (hd xs) (tl xs) \<longrightarrow>
      lcmOfArray (JArr (map (\<lambda>x. JNum (num x)) xs))
        = Some (num (fold (\<lambda>x r. lcm r x) (tl xs) (hd xs)))
      \<and> 0 < fold (\<lambda>x r. lcm r x) (tl xs) (hd xs)
      \<and> (\<forall>x\<in>set xs. x dvd fold (\<lambda>x r. lcm r x) (tl xs) (hd xs))
      \<and> (\<forall>m. 0 < m \<and> (\<forall>x\<in>set xs. x dvd m) \<longrightarrow> fold (\<lambda>x r. lcm r x) (tl xs) (hd xs) \<le> m))
   \<and> lcmOfArray (JArr []) = Some (Fin 0)
   \<and> (\<not> isArray v \<longrightarrow> lcmOfArray v = Some (Fin 0))"
proof (intro conjI impI allI)
  assume a: "xs \<noteq> [] \<and> (\<forall>x\<in>set xs. 0 < x) \<and> products_exact (hd xs) (tl xs)"
  then obtain y ys where xs: "xs = y # ys" by (cases xs) auto
  with a have pos: "0 < y" "\<forall>x\<in>set ys. 0 < x" and ex: "products_exact y ys" by simp_all
  let ?L = "fold (\<lambda>x r. lcm r x) ys y"
  have f: "map the_num (filter positive_integer (map (\<lambda>x. JNum (num x)) xs)) = map num xs"
    using a by (intro filter_positive_nums) simp
  have "lcmOfArray (JArr (map (\<lambda>x. JNum (num x)) xs)) = lcm_loop (num y) (map num ys)"
    unfolding lcmOfArray_def isArray.simps elems.simps f by (simp add: xs)
  then show "lcmOfArray (JArr (map (\<lambda>x. JNum (num x)) xs))
        = Some (num (fold (\<lambda>x r. lcm r x) (tl xs) (hd xs)))"
    using pos ex by (simp add: xs lcm_loop_num)
  note L = fold_lcm_least [OF pos]
  show "0 < fold (\<lambda>x r. lcm r x) (tl xs) (hd xs)" using L by (simp add: xs)
  show "\<forall>x\<in>set xs. x dvd fold (\<lambda>x r. lcm r x) (tl xs) (hd xs)" using L by (simp add: xs)
  fix m
  assume m: "0 < m \<and> (\<forall>x\<in>set xs. x dvd m)"
  then have "?L dvd m" using L by (simp add: xs)
  then have "?L \<le> m" using m by (simp add: zdvd_imp_le)
  then show "fold (\<lambda>x r. lcm r x) (tl xs) (hd xs) \<le> m" by (simp add: xs)
next
  show "lcmOfArray (JArr []) = Some (Fin 0)" by (simp add: lcmOfArray_def)
next
  assume "\<not> isArray v"
  then show "lcmOfArray v = Some (Fin 0)" by (simp add: lcmOfArray_def)
qed

theorem lcmOfArray_least_common_multiple_when_exact_witness:
  "lcmOfArray (JArr (map (\<lambda>x. JNum (num x)) [12, 18, 24])) = Some (num 72)
   \<and> (12::int) dvd 72 \<and> (18::int) dvd 72 \<and> (24::int) dvd 72
   \<and> lcmOfArray (JStr ''12'') = Some (Fin 0)"
proof -
  have "fold (\<lambda>x r. lcm r x) (tl [12, 18, 24]) (hd [12, 18, 24]) = (72::int)"
    by code_simp
  moreover have "products_exact (hd [12, 18, 24]) (tl [12, 18, 24])"
    by code_simp
  ultimately show ?thesis
    using lcmOfArray_least_common_multiple_when_exact [of "[12, 18, 24]" "JStr ''12''"]
    by simp
qed

text \<open>
  C7 as stated fails: the product of \<open>9007199254740991\<close> and \<open>3\<close> is rounded to a
  multiple of 4, and the result is not divisible by 3.
\<close>

theorem lcmOfArray_rounds_large_products:
  "lcmOfArray (JArr [JNum (Fin 9007199254740991), JNum (Fin 3)]) = Some (Fin 27021597764222972)
   \<and> \<not> (3::int) dvd 27021597764222972"
proof -
  have "bitlen 27021597764222973 = 53 + int 2" by code_simp
  then have "round_double (of_int 27021597764222973) =
      num (round_div 27021597764222973 (2 ^ 2) * 2 ^ 2)"
    by (intro round_double_big_int) simp_all
  then have m: "round_double 27021597764222973 = Fin 27021597764222972"
    by (simp add: round_div_def)
  have "bitlen 27021597764222972 = 53 + int 2" by code_simp
  then have "round_double (of_int 27021597764222972) =
      num (round_div 27021597764222972 (2 ^ 2) * 2 ^ 2)"
    by (intro round_double_big_int) simp_all
  then have d: "round_double 27021597764222972 = Fin 27021597764222972"
    by (simp add: round_div_def)
  have "gcd (9007199254740991::int) 3 = 1" by code_simp
  then have g: "gcd_js (Fin 9007199254740991) (Fin 3) = Some (Fin 1)"
    using gcd_js_num [of 9007199254740991 3] by simp
  have "lcmOfArray (JArr [JNum (Fin 9007199254740991), JNum (Fin 3)]) = Some (Fin 27021597764222972)"
    by (simp add: lcmOfArray_def positive_integer_def js_gt_def g m d)
  moreover have "\<not> (3::int) dvd 27021597764222972" by simp
  ultimately show ?thesis by simp
qed

section \<open>The two variants of lcmOfArray\<close>

lemma gcd_v2_JNum: "gcd_v2 coerce (JNum a) (JNum b) = gcd_js a b"
  by (simp add: gcd_v2_def gcd_js_def)

lemma lcm_loop_v2_JNum:
  "lcm_loop_v2 coerce (JNum r) (map JNum ys) = map_option JNum (lcm_loop r ys)"
proof (induction ys arbitrary: r)
  case Nil
  show ?case by simp
next
  case (Cons y ys)
  show ?case
  proof (cases "gcd_js r y")
    case None
    then show ?thesis by (simp add: gcd_v2_JNum)
  next
    case (Some g)
    then show ?thesis using Cons.IH by (simp add: gcd_v2_JNum)
  qed
qed

text \<open>
  C10. On a non-empty array of strictly positive integers the \<open>lcmOfArray\<close> of
  part\_000, which folds over the array as it is, and the \<open>lcmOfArray\<close> of index.js,
  which filters first, give the same result (and neither returns when the other does not).
\<close>

theorem lcmOfArray_variants_agree:
  "xs \<noteq> [] \<and> (\<forall>x\<in>set xs. 0 < x) \<longrightarrow>
   lcmOfArray_v2 coerce (Some (JArr (map (\<lambda>x. JNum (num x)) xs)))
     = map_option JNum (lcmOfArray (JArr (map (\<lambda>x. JNum (num x)) xs)))"
proof
  assume a: "xs \<noteq> [] \<and> (\<forall>x\<in>set xs. 0 < x)"
  then obtain y ys where xs: "xs = y # ys" by (cases xs) auto
  have f: "map the_num (filter positive_integer (map (\<lambda>x. JNum (num x)) xs)) = map num xs"
    using a by (intro filter_positive_nums) simp
  have 1: "lcmOfArray (JArr (map (\<lambda>x. JNum (num x)) xs)) = lcm_loop (num y) (map num ys)"
    unfolding lcmOfArray_def isArray.simps elems.simps f by (simp add: xs)
  have "map (\<lambda>x. JNum (num x)) ys = map JNum (map num ys)" by simp
  then have 2: "lcmOfArray_v2 coerce (Some (JArr (map (\<lambda>x. JNum (num x)) xs)))
      = lcm_loop_v2 coerce (JNum (num y)) (map JNum (map num ys))"
    by (simp add: lcmOfArray_v2_def xs comp_def)
  show "lcmOfArray_v2 coerce (Some (JArr (map (\<lambda>x. JNum (num x)) xs)))
     = map_option JNum (lcmOfArray (JArr (map (\<lambda>x. JNum (num x)) xs)))"
    unfolding 1 2 by (rule lcm_loop_v2_JNum)
qed

theorem lcmOfArray_variants_agree_witness:
  "lcmOfArray_v2 (\<lambda>v. NaN) (Some (JArr (map (\<lambda>x. JNum (num x)) [12, 18, 24]))) = Some (JNum (Fin 72))
   \<and> lcmOfArray (JArr (map (\<lambda>x. JNum (num x)) [12, 18, 24])) = Some (Fin 72)"
proof -
  have "fold (\<lambda>x r. lcm r x) [18, 24] 12 = (72::int)" by code_simp
  moreover have "products_exact 12 [18, 24]" by code_simp
  ultimately have "lcm_loop (num 12) (map num [18, 24]) = Some (num 72)"
    using lcm_loop_num [of 12 "[18, 24]"] by simp
  then have "lcmOfArray (JArr (map (\<lambda>x. JNum (num x)) [12, 18, 24])) = Some (Fin 72)"
    by (simp add: lcmOfArray_def positive_integer_def js_gt_def)
  then show ?thesis
    using lcmOfArray_variants_agree [of "[12, 18, 24]" "\<lambda>v. NaN"]
    by simp
qed


section \<open>fibonacci\<close>

lemma elem_nth: "0 \<le> i \<Longrightarrow> nat i < length xs \<Longrightarrow> elem xs i = xs ! nat i"
  by (simp add: elem_def)

lemma fib_loop_props:
  "2 \<le> i \<Longrightarrow> i \<le> n \<Longrightarrow> length series = nat i \<Longrightarrow>
   length (fib_loop i n series) = nat n
   \<and> take (nat i) (fib_loop i n series) = series
   \<and> (\<forall>k. nat i \<le> k \<and> k < nat n \<longrightarrow>
         fib_loop i n series ! k
           = js_add (fib_loop i n series ! (k - 1)) (fib_loop i n series ! (k - 2)))"
proof (induction i n series rule: fib_loop.induct)
  case (1 i n series)
  show ?case
  proof (cases "i < n")
    case False
    with "1.prems" have "i = n" by simp
    moreover have "fib_loop i n series = series" using False by (subst fib_loop.simps) simp
    ultimately show ?thesis using "1.prems" by auto
  next
    case True
    define j where "j = nat i"
    have j: "2 \<le> j" "length series = j" "nat (i + 1) = Suc j" "nat (i - 1) = j - 1"
      "nat (i - 2) = j - 2"
      using "1.prems" by (simp_all add: j_def)
    define x where "x = js_add (elem series (i - 1)) (elem series (i - 2))"
    have x: "x = js_add (series ! (j - 1)) (series ! (j - 2))"
      using "1.prems" j by (simp add: x_def elem_nth)
    define r where "r = fib_loop (i + 1) n (series @ [x])"
    have r: "fib_loop i n series = r"
      using True by (subst fib_loop.simps) (simp add: r_def x_def)
    have ih: "length r = nat n" "take (Suc j) r = series @ [x]"
      "\<forall>k. Suc j \<le> k \<and> k < nat n \<longrightarrow> r ! k = js_add (r ! (k - 1)) (r ! (k - 2))"
      using "1.IH" [OF True] "1.prems" True j unfolding r_def x_def by simp_all
    have pre: "r ! k = (series @ [x]) ! k" if "k \<le> j" for k
    proof -
      have "take (Suc j) r ! k = r ! k" using that by simp
      then show ?thesis by (simp only: ih(2))
    qed
    have t: "take j r = series"
    proof -
      have "take j (take (Suc j) r) = take j r" by (simp add: min_def)
      then show ?thesis using j(2) by (simp only: ih(2)) simp
    qed
    have "r ! j = js_add (r ! (j - 1)) (r ! (j - 2))"
    proof -
      have "(series @ [x]) ! length series = x" by (rule nth_append_length)
      then have "r ! j = x" using pre [of j] j(2) by simp
      moreover have "r ! (j - 1) = series ! (j - 1)" using pre [of "j - 1"] j by (simp add: nth_append)
      moreover have "r ! (j - 2) = series ! (j - 2)" using pre [of "j - 2"] j by (simp add: nth_append)
      ultimately show ?thesis by (simp only: x)
    qed
    then have "\<forall>k. j \<le> k \<and> k < nat n \<longrightarrow> r ! k = js_add (r ! (k - 1)) (r ! (k - 2))"
      using ih(3) by (metis Suc_leI le_neq_implies_less)
    then show ?thesis using ih(1) t by (simp only: r j_def [symmetric])
  qed
qed

lemma fibonacci_recurrence:
  "0 \<le> n \<Longrightarrow>
   length (fibonacci n) = nat n
   \<and> (1 \<le> n \<longrightarrow> fibonacci n ! 0 = Fin 0)
   \<and> (2 \<le> n \<longrightarrow> fibonacci n ! 1 = Fin 1)
   \<and> (\<forall>k. 2 \<le> k \<and> k < nat n \<longrightarrow>
         fibonacci n ! k = js_add (fibonacci n ! (k - 1)) (fibonacci n ! (k - 2)))"
proof -
  assume n: "0 \<le> n"
  consider "n = 0" | "n = 1" | "2 \<le> n" using n by linarith
  then show ?thesis
  proof cases
    case 1
    then show ?thesis by (simp add: fibonacci_def)
  next
    case 2
    then show ?thesis by (simp add: fibonacci_def)
  next
    case 3
    then have f: "fibonacci n = fib_loop 2 n [Fin 0, Fin 1]" by (simp add: fibonacci_def)
    have p: "length (fib_loop 2 n [Fin 0, Fin 1]) = nat n"
      "take 2 (fib_loop 2 n [Fin 0, Fin 1]) = [Fin 0, Fin 1]"
      "\<forall>k. 2 \<le> k \<and> k < nat n \<longrightarrow> fib_loop 2 n [Fin 0, Fin 1] ! k
         = js_add (fib_loop 2 n [Fin 0, Fin 1] ! (k - 1)) (fib_loop 2 n [Fin 0, Fin 1] ! (k - 2))"
      using fib_loop_props [of 2 n "[Fin 0, Fin 1]"] 3 by simp_all
    have "take 2 (fibonacci n) ! 0 = fibonacci n ! 0" "take 2 (fibonacci n) ! 1 = fibonacci n ! 1"
      by simp_all
    then have "fibonacci n ! 0 = [Fin 0, Fin 1] ! 0" "fibonacci n ! 1 = [Fin 0, Fin 1] ! 1"
      unfolding f p(2) by simp_all
    then have "fibonacci n ! 0 = Fin 0" "fibonacci n ! 1 = Fin 1" by simp_all
    then show ?thesis using p(1,3) unfolding f by simp
  qed
qed

lemma fib_iter_fib: "fib_iter n (fib k) (fib (Suc k)) = fib (n + k)"
proof (induction n arbitrary: k)
  case 0
  show ?case by simp
next
  case (Suc n)
  have "fib k + fib (Suc k) = fib (Suc (Suc k))" by simp
  then show ?case using Suc [of "Suc k"] by (simp del: fib.simps)
qed

lemma fib_eq_iter: "fib n = fib_iter n 0 1"
  using fib_iter_fib [of n 0] by simp

lemma fib_nonneg: "0 \<le> fib n"
  by (induction n rule: fib.induct) simp_all

lemma fib_mono_Suc: "fib n \<le> fib (Suc n)"
  by (cases n) (simp_all add: fib_nonneg)

lemma fib_mono: "m \<le> n \<Longrightarrow> fib m \<le> fib n"
  by (induction n) (auto simp: le_Suc_eq intro: order_trans [OF _ fib_mono_Suc])

lemma fib_pos: "0 < n \<Longrightarrow> 0 < fib n"
  using fib_mono [of 1 n] by simp

lemma fib_77_78: "fib_iter 77 0 1 = 5527939700884757" "fib_iter 78 0 1 = 8944394323791464"
  by code_simp+

lemma fib_78: "fib 78 = 8944394323791464"
  unfolding fib_eq_iter by (rule fib_77_78)

lemma fib_77: "fib 77 = 5527939700884757"
  unfolding fib_eq_iter by (rule fib_77_78)

lemma js_add_exact:
  assumes "0 < a + b" "a + b \<le> 2 ^ 53"
  shows "js_add (num a) (num b) = num (a + b)"
proof -
  have "round_double (of_int (a + b)) = num (a + b)"
    using assms by (rule round_double_pos_int)
  then show ?thesis by simp
qed

lemma fibonacci_exact:
  "k < nat n \<Longrightarrow> k \<le> 78 \<Longrightarrow> fibonacci n ! k = num (fib k)"
proof (induction k rule: less_induct)
  case (less k)
  have n: "0 \<le> n" using less.prems by simp
  note R = fibonacci_recurrence [OF n]
  consider "k = 0" | "k = 1" | "2 \<le> k" by linarith
  then show ?case
  proof cases
    case 1
    then show ?thesis using R less.prems by simp
  next
    case 2
    then show ?thesis using R less.prems by simp
  next
    case 3
    then have "k = Suc (Suc (k - 2))" by simp
    then obtain m where k: "k = Suc (Suc m)" ..
    have a: "fibonacci n ! (k - 1) = num (fib (Suc m))"
      using less.IH [of "Suc m"] less.prems by (simp add: k)
    have b: "fibonacci n ! (k - 2) = num (fib m)"
      using less.IH [of m] less.prems by (simp add: k)
    have "fib k \<le> fib 78" using less.prems(2) by (rule fib_mono)
    then have le: "fib (Suc m) + fib m \<le> 2 ^ 53" by (simp add: k fib_78)
    have "0 < fib k" using 3 by (intro fib_pos) simp
    then have pos: "0 < fib (Suc m) + fib m" by (simp add: k)
    have "fibonacci n ! k = js_add (fibonacci n ! (k - 1)) (fibonacci n ! (k - 2))"
      using R 3 less.prems(1) by blast
    also have "\<dots> = num (fib (Suc m) + fib m)"
      unfolding a b using pos le by (rule js_add_exact)
    finally show ?thesis by (simp add: k)
  qed
qed

text \<open>
  C5, as amended. For every integer \<open>n\<close> from 0 to 1000, \<open>fibonacci(n)\<close> has length
  \<open>n\<close>, starts with 0 (if \<open>n \<ge> 1\<close>) and 1 (if \<open>n \<ge> 2\<close>), and each further element is
  the sum of the two before it as the addition of numbers gives it, which is the nearest
  double; the elements with index up to 78 are the Fibonacci numbers themselves.
  \<open>fibonacci(0)\<close> is empty and \<open>fibonacci(1)\<close> is \<open>[0]\<close>.
\<close>

theorem fibonacci_length_and_rounded_recurrence:
  "(0 \<le> n \<and> n \<le> 1000 \<longrightarrow>
      length (fibonacci n) = nat n
      \<and> (1 \<le> n \<longrightarrow> fibonacci n ! 0 = Fin 0)
      \<and> (2 \<le> n \<longrightarrow> fibonacci n ! 1 = Fin 1)
      \<and> (\<forall>i. 2 \<le> i \<and> i < nat n \<longrightarrow>
            fibonacci n ! i = js_add (fibonacci n ! (i - 1)) (fibonacci n ! (i - 2)))
      \<and> (\<forall>i. i < nat n \<and> i \<le> 78 \<longrightarrow> fibonacci n ! i = num (fib i)))
   \<and> fibonacci 0 = []
   \<and> fibonacci 1 = [Fin 0]"
proof (intro conjI impI)
  assume "0 \<le> n \<and> n \<le> 1000"
  then have n: "0 \<le> n" by simp
  note R = fibonacci_recurrence [OF n]
  show "length (fibonacci n) = nat n" by (rule R [THEN conjunct1])
  show "fibonacci n ! 0 = Fin 0" if "1 \<le> n"
    using that by (rule R [THEN conjunct2, THEN conjunct1, rule_format])
  show "fibonacci n ! 1 = Fin 1" if "2 \<le> n"
    using that by (rule R [THEN conjunct2, THEN conjunct2, THEN conjunct1, rule_format])
  show "\<forall>i. 2 \<le> i \<and> i < nat n \<longrightarrow>
      fibonacci n ! i = js_add (fibonacci n ! (i - 1)) (fibonacci n ! (i - 2))"
    by (rule R [THEN conjunct2, THEN conjunct2, THEN conjunct2])
  show "\<forall>i. i < nat n \<and> i \<le> 78 \<longrightarrow> fibonacci n ! i = num (fib i)"
    by (simp add: fibonacci_exact)
next
  show "fibonacci 0 = []" by (simp add: fibonacci_def)
next
  show "fibonacci 1 = [Fin 0]" by (simp add: fibonacci_def)
qed

theorem fibonacci_length_and_rounded_recurrence_witness:
  "length (fibonacci 7) = 7 \<and> fibonacci 7 ! 0 = Fin 0 \<and> fibonacci 7 ! 1 = Fin 1
   \<and> fibonacci 7 ! 6 = js_add (fibonacci 7 ! 5) (fibonacci 7 ! 4)
   \<and> fibonacci 7 ! 6 = Fin 8"
proof -
  have f: "fib 6 = 8" by (simp add: eval_nat_numeral)
  have h: "(0::int) \<le> 7 \<and> (7::int) \<le> 1000" by simp
  note t = fibonacci_length_and_rounded_recurrence [of 7, THEN conjunct1, rule_format, OF h]
  have 1: "length (fibonacci 7) = 7" using t [THEN conjunct1] by simp
  have 2: "fibonacci 7 ! 0 = Fin 0"
    by (rule t [THEN conjunct2, THEN conjunct1, rule_format]) simp
  have 3: "fibonacci 7 ! 1 = Fin 1"
    by (rule t [THEN conjunct2, THEN conjunct2, THEN conjunct1, rule_format]) simp
  have "fibonacci 7 ! 6 = js_add (fibonacci 7 ! (6 - 1)) (fibonacci 7 ! (6 - 2))"
    by (rule t [THEN conjunct2, THEN conjunct2, THEN conjunct2, THEN conjunct1, rule_format]) simp
  then have 4: "fibonacci 7 ! 6 = js_add (fibonacci 7 ! 5) (fibonacci 7 ! 4)" by simp
  have "fibonacci 7 ! 6 = num (fib 6)"
    by (rule t [THEN conjunct2, THEN conjunct2, THEN conjunct2, THEN conjunct2, rule_format]) simp
  then have 5: "fibonacci 7 ! 6 = Fin 8" by (simp add: f)
  show ?thesis using 1 2 3 4 5 by (intro conjI)
qed

text \<open>
  C5 as stated fails at \<open>n = 80\<close> and \<open>i = 79\<close>: the sum of the two elements before is
  odd and above \<open>2^53\<close>, and the element is the even number below it.
\<close>

theorem fibonacci_80_is_rounded:
  "fibonacci 80 ! 77 = Fin 5527939700884757
   \<and> fibonacci 80 ! 78 = Fin 8944394323791464
   \<and> fibonacci 80 ! 79 = Fin 14472334024676220
   \<and> (14472334024676220 :: rat) \<noteq> 8944394323791464 + 5527939700884757"
proof -
  have a: "fibonacci 80 ! 77 = Fin 5527939700884757"
    using fibonacci_exact [of 77 80] by (simp add: fib_77)
  have b: "fibonacci 80 ! 78 = Fin 8944394323791464"
    using fibonacci_exact [of 78 80] by (simp add: fib_78)
  have "bitlen 14472334024676221 = 53 + int 1" by code_simp
  then have "round_double (of_int 14472334024676221) =
      num (round_div 14472334024676221 (2 ^ 1) * 2 ^ 1)"
    by (intro round_double_big_int) simp_all
  then have r: "round_double 14472334024676221 = Fin 14472334024676220"
    by (simp add: round_div_def)
  have "fibonacci 80 ! 79 = js_add (fibonacci 80 ! (79 - 1)) (fibonacci 80 ! (79 - 2))"
    by (rule fibonacci_recurrence [of 80, THEN conjunct2, THEN conjunct2, THEN conjunct2,
          rule_format]) simp_all
  then have "fibonacci 80 ! 79 = Fin 14472334024676220"
    by (simp add: a b r)
  then show ?thesis using a b by simp
qed

section \<open>isPrime and filterPrimes\<close>

lemma isPrime_loop_correct:
  "odd n \<Longrightarrow> odd i \<Longrightarrow> 3 \<le> i \<Longrightarrow> (\<forall>d. 2 \<le> d \<and> d < int i \<longrightarrow> \<not> d dvd n) \<Longrightarrow>
   isPrime_loop i n = (\<forall>d. 2 \<le> d \<and> d < n \<longrightarrow> \<not> d dvd n)"
proof (induction i n rule: isPrime_loop.induct)
  case (1 i n)
  let ?I = "int i"
  have I: "3 \<le> ?I" using "1.prems"(3) by simp
  show ?case
  proof (cases "?I * ?I \<le> n")
    case True
    have "?I * 3 \<le> ?I * ?I" using I by (intro mult_left_mono) simp_all
    then have In: "?I < n" using True I by linarith
    show ?thesis
    proof (cases "n mod ?I = 0")
      case z: True
      then have "?I dvd n" by (simp add: dvd_eq_mod_eq_0)
      then have "\<not> (\<forall>d. 2 \<le> d \<and> d < n \<longrightarrow> \<not> d dvd n)" using I In by force
      moreover have "\<not> isPrime_loop i n" using True z by (subst isPrime_loop.simps) simp
      ultimately show ?thesis by simp
    next
      case nz: False
      then have nd: "\<not> ?I dvd n" by (simp add: dvd_eq_mod_eq_0)
      have inv: "\<forall>d. 2 \<le> d \<and> d < int (i + 2) \<longrightarrow> \<not> d dvd n"
      proof (intro allI impI)
        fix d
        assume d: "2 \<le> d \<and> d < int (i + 2)"
        consider "d < ?I" | "d = ?I" | "d = ?I + 1" using d by (simp; linarith)
        then show "\<not> d dvd n"
        proof cases
          case 1
          then show ?thesis using "1.prems"(4) d by simp
        next
          case 2
          then show ?thesis using nd by simp
        next
          case 3
          then have "even d" using "1.prems"(2) by simp
          then show ?thesis using "1.prems"(1) by (meson dvd_trans)
        qed
      qed
      have "isPrime_loop (i + 2) n = (\<forall>d. 2 \<le> d \<and> d < n \<longrightarrow> \<not> d dvd n)"
        using "1.IH" [OF True nz] "1.prems"(1,2,3) inv by simp
      moreover have "isPrime_loop i n = isPrime_loop (i + 2) n"
        using True nz by (subst isPrime_loop.simps) simp
      ultimately show ?thesis by simp
    qed
  next
    case False
    have "\<not> d dvd n" if d: "2 \<le> d" "d < n" for d
    proof
      assume dv: "d dvd n"
      then obtain e where e: "n = d * e" ..
      have npos: "0 < n" using d by simp
      have epos: "0 < e" using e npos d(1) by (simp add: zero_less_mult_iff)
      have e2: "2 \<le> e"
      proof (rule ccontr)
        assume "\<not> 2 \<le> e"
        with epos have "e = 1" by simp
        with e d(2) show False by simp
      qed
      have edv: "e dvd n" using e by simp
      show False
      proof (cases "d < ?I")
        case True
        then show ?thesis using "1.prems"(4) d(1) dv by simp
      next
        case dI: False
        have "e < ?I"
        proof (rule ccontr)
          assume "\<not> e < ?I"
          then have "?I * ?I \<le> d * e" using dI I by (intro mult_mono) simp_all
          then show False using False e by simp
        qed
        then show ?thesis using "1.prems"(4) e2 edv by simp
      qed
    qed
    moreover have "isPrime_loop i n" using False by (subst isPrime_loop.simps) simp
    ultimately show ?thesis by simp
  qed
qed

lemma is_prime_iff: "is_prime p = (2 \<le> p \<and> (\<forall>d. 2 \<le> d \<and> d < p \<longrightarrow> \<not> d dvd p))"
proof -
  have "(\<forall>d \<in> {1..p}. d dvd p \<longrightarrow> d = 1 \<or> d = p) = (\<forall>d. 2 \<le> d \<and> d < p \<longrightarrow> \<not> d dvd p)"
  proof
    assume a: "\<forall>d \<in> {1..p}. d dvd p \<longrightarrow> d = 1 \<or> d = p"
    show "\<forall>d. 2 \<le> d \<and> d < p \<longrightarrow> \<not> d dvd p"
    proof (intro allI impI notI)
      fix d
      assume d: "2 \<le> d \<and> d < p" and dv: "d dvd p"
      then have "d \<in> {1..p}" by simp
      with a dv have "d = 1 \<or> d = p" by blast
      with d show False by linarith
    qed
  next
    assume a: "\<forall>d. 2 \<le> d \<and> d < p \<longrightarrow> \<not> d dvd p"
    show "\<forall>d \<in> {1..p}. d dvd p \<longrightarrow> d = 1 \<or> d = p"
    proof (intro ballI impI)
      fix d
      assume d: "d \<in> {1..p}" and dv: "d dvd p"
      show "d = 1 \<or> d = p"
      proof (rule ccontr)
        assume "\<not> (d = 1 \<or> d = p)"
        with d have "2 \<le> d \<and> d < p" by simp
        with a dv show False by blast
      qed
    qed
  qed
  then show ?thesis by (simp only: is_prime_def)
qed

lemma isPrime_is_prime: "isPrime n = is_prime n"
proof -
  consider "n < 2" | "n = 2" | "2 < n" "even n" | "2 < n" "odd n" by linarith
  then show ?thesis
  proof cases
    case 1
    then show ?thesis by (simp add: isPrime_def is_prime_iff)
  next
    case 2
    have "\<forall>d::int. 2 \<le> d \<and> d < 2 \<longrightarrow> \<not> d dvd 2" by auto
    then show ?thesis using 2 by (simp add: isPrime_def is_prime_iff)
  next
    case 3
    then have "2 \<le> (2::int) \<and> 2 < n \<and> 2 dvd n" by simp
    then have "\<not> is_prime n" unfolding is_prime_iff by blast
    moreover have "\<not> isPrime n" using 3 by (simp add: isPrime_def even_iff_mod_2_eq_zero)
    ultimately show ?thesis by simp
  next
    case 4
    have inv: "\<forall>d. 2 \<le> d \<and> d < int 3 \<longrightarrow> \<not> d dvd n"
    proof (intro allI impI)
      fix d :: int
      assume "2 \<le> d \<and> d < int 3"
      then have "d = 2" by simp
      then show "\<not> d dvd n" using 4(2) by simp
    qed
    have "isPrime_loop 3 n = (\<forall>d. 2 \<le> d \<and> d < n \<longrightarrow> \<not> d dvd n)"
      using 4(2) inv by (intro isPrime_loop_correct) simp_all
    moreover have "isPrime n = isPrime_loop 3 n"
      using 4 by (simp add: isPrime_def even_iff_mod_2_eq_zero)
    ultimately show ?thesis using 4(1) by (simp add: is_prime_iff)
  qed
qed

lemma isInteger_num: "isInteger v \<Longrightarrow> v = JNum (num (the_int v))"
proof (cases v)
  case (JNum x)
  assume i: "isInteger v"
  show ?thesis
  proof (cases x)
    case (Fin q)
    from i have "isInteger (JNum (Fin q))" unfolding JNum Fin .
    then have e: "of_int \<lfloor>q\<rfloor> = q" by (simp only: isInteger.simps)
    show ?thesis unfolding JNum Fin by (simp only: the_int.simps e)
  qed (use i JNum in simp_all)
qed simp_all

lemma positive_integer_iff: "positive_integer v = (\<exists>p. v = JNum (num p) \<and> 0 < p)"
proof
  assume "positive_integer v"
  then have "v = JNum (num (the_int v))" "positive_integer (JNum (num (the_int v)))"
    using isInteger_num [of v] by (simp_all add: positive_integer_def)
  then show "\<exists>p. v = JNum (num p) \<and> 0 < p" by (metis positive_integer_num)
next
  assume "\<exists>p. v = JNum (num p) \<and> 0 < p"
  then show "positive_integer v" by auto
qed

lemma filterPrimes_filter:
  "filterPrimes (JArr xs) = filter (\<lambda>v. \<exists>p. v = JNum (num p) \<and> 0 < p \<and> is_prime p) xs"
proof -
  have "(positive_integer v \<and> isPrime (the_int v)) = (\<exists>p. v = JNum (num p) \<and> 0 < p \<and> is_prime p)" for v
    unfolding positive_integer_iff isPrime_is_prime by auto
  then show ?thesis by (simp add: filterPrimes_def)
qed

text \<open>
  C6. For every array, \<open>filterPrimes\<close> returns a subsequence of it in the same order;
  every element returned is a strictly positive prime integer; every element that is not
  one (not an integer, not positive, or not prime) is left out; every prime of the array is
  returned. An argument that is not an array gives the empty array.
\<close>

theorem filterPrimes_keeps_exactly_the_primes:
  "subseq (filterPrimes (JArr xs)) xs
   \<and> (\<forall>v \<in> set (filterPrimes (JArr xs)). \<exists>p. v = JNum (num p) \<and> 0 < p \<and> is_prime p)
   \<and> (\<forall>v \<in> set xs. \<not> (\<exists>p. v = JNum (num p) \<and> 0 < p \<and> is_prime p) \<longrightarrow>
         v \<notin> set (filterPrimes (JArr xs)))
   \<and> (\<forall>p. JNum (num p) \<in> set xs \<and> is_prime p \<longrightarrow> JNum (num p) \<in> set (filterPrimes (JArr xs)))
   \<and> (\<not> isArray a \<longrightarrow> filterPrimes a = [])"
proof (intro conjI)
  show "subseq (filterPrimes (JArr xs)) xs"
    unfolding filterPrimes_filter by (rule subseq_filter_left)
  show "\<forall>v \<in> set (filterPrimes (JArr xs)). \<exists>p. v = JNum (num p) \<and> 0 < p \<and> is_prime p"
    unfolding filterPrimes_filter by simp
  show "\<forall>v \<in> set xs. \<not> (\<exists>p. v = JNum (num p) \<and> 0 < p \<and> is_prime p) \<longrightarrow>
         v \<notin> set (filterPrimes (JArr xs))"
    unfolding filterPrimes_filter by simp
  show "\<forall>p. JNum (num p) \<in> set xs \<and> is_prime p \<longrightarrow> JNum (num p) \<in> set (filterPrimes (JArr xs))"
    unfolding filterPrimes_filter by (auto simp: is_prime_def)
  show "\<not> isArray a \<longrightarrow> filterPrimes a = []" by (simp add: filterPrimes_def)
qed

theorem filterPrimes_keeps_exactly_the_primes_witness:
  "subseq (filterPrimes (JArr [JNum (num 4), JNum (num 7), JStr ''11'']))
      [JNum (num 4), JNum (num 7), JStr ''11'']
   \<and> JNum (num 7) \<in> set (filterPrimes (JArr [JNum (num 4), JNum (num 7), JStr ''11'']))
   \<and> JStr ''11'' \<notin> set (filterPrimes (JArr [JNum (num 4), JNum (num 7), JStr ''11'']))
   \<and> filterPrimes (JStr ''7'') = []"
proof -
  have "isPrime_loop 3 7" by (subst isPrime_loop.simps) simp
  then have "isPrime 7" by (simp add: isPrime_def)
  then have p: "is_prime 7" by (simp only: isPrime_is_prime)
  note t = filterPrimes_keeps_exactly_the_primes
      [of "[JNum (num 4), JNum (num 7), JStr ''11'']" "JStr ''7''"]
  have 1: "subseq (filterPrimes (JArr [JNum (num 4), JNum (num 7), JStr ''11'']))
      [JNum (num 4), JNum (num 7), JStr ''11'']"
    by (rule t [THEN conjunct1])
  have "JNum (num 7) \<in> set [JNum (num 4), JNum (num 7), JStr ''11''] \<and> is_prime 7"
    using p by simp
  then have 2: "JNum (num 7) \<in> set (filterPrimes (JArr [JNum (num 4), JNum (num 7), JStr ''11'']))"
    by (rule t [THEN conjunct2, THEN conjunct2, THEN conjunct2, THEN conjunct1, rule_format])
  have m: "JStr ''11'' \<in> set [JNum (num 4), JNum (num 7), JStr ''11'']" by simp
  have n: "\<not> (\<exists>p. JStr ''11'' = JNum (num p) \<and> 0 < p \<and> is_prime p)" by simp
  have 3: "JStr ''11'' \<notin> set (filterPrimes (JArr [JNum (num 4), JNum (num 7), JStr ''11'']))"
    by (rule t [THEN conjunct2, THEN conjunct2, THEN conjunct1, rule_format, OF m n])
  have "\<not> isArray (JStr ''7'')" by simp
  then have 4: "filterPrimes (JStr ''7'') = []"
    by (rule t [THEN conjunct2, THEN conjunct2, THEN conjunct2, THEN conjunct2, rule_format])
  show ?thesis using 1 2 3 4 by (intro conjI)
qed


section \<open>The handler: key selection\<close>

lemma select_key_JObj:
  "select_key (JObj kvs) = (case kvs of [(k, v)] \<Rightarrow> if k \<in> set validKeys then Some k else None | _ \<Rightarrow> None)"
proof (cases kvs)
  case Nil
  then show ?thesis by (simp add: select_key_def)
next
  case (Cons a as)
  obtain k v where a: "a = (k, v)" by (cases a)
  show ?thesis
    by (cases as) (simp_all add: select_key_def Cons a Let_def)
qed

lemma select_key_v2_JObj:
  "select_key_v2 (JObj kvs) = (case kvs of [(k, v)] \<Rightarrow> if k \<in> set validKeys then Some k else None | _ \<Rightarrow> None)"
proof (cases kvs)
  case Nil
  then show ?thesis by (simp add: select_key_v2_def)
next
  case (Cons a as)
  obtain k v where a: "a = (k, v)" by (cases a)
  show ?thesis
    by (cases as) (simp_all add: select_key_v2_def Cons a Let_def)
qed

lemma single_valid_iff:
  "(\<exists>k v. kvs = [(k, v)] \<and> k \<in> set validKeys)
   = ((case kvs of [(k, v)] \<Rightarrow> if k \<in> set validKeys then Some k else None | _ \<Rightarrow> None) \<noteq> None)"
  by (auto split: list.splits prod.splits)

text \<open>
  Object.keys of an array gives its indices in decimal, and none of them is a recognized
  key: an array body is rejected like an object without a recognized key.
\<close>

lemma string_of_nat_last: "last (string_of_nat n) = char_of (48 + n mod 10)"
  by (subst string_of_nat.simps) simp

lemma last_validKeys:
  "k \<in> set validKeys \<Longrightarrow> (of_char (last k) :: nat) \<in> {105, 101, 109, 102, 73}"
  by (auto simp: validKeys_def)

lemma string_of_nat_not_valid: "string_of_nat n \<notin> set validKeys"
proof
  assume "string_of_nat n \<in> set validKeys"
  then have "(of_char (last (string_of_nat n)) :: nat) \<in> {105, 101, 109, 102, 73}"
    by (rule last_validKeys)
  moreover have "(of_char (char_of (48 + n mod 10) :: char) :: nat) = 48 + n mod 10"
    by (simp add: of_char_of)
  moreover have "n mod 10 < 10" by simp
  ultimately show False by (simp add: string_of_nat_last)
qed

lemma find_index_keys: "find (\<lambda>k. k \<in> set validKeys) (map string_of_nat ns) = None"
  by (simp add: find_None_iff string_of_nat_not_valid)

lemma select_key_JArr: "select_key (JArr xs) = None" "select_key_v2 (JArr xs) = None"
  by (simp_all add: select_key_def select_key_v2_def find_index_keys)

lemma post_bfhl_JArr:
  "post_bfhl cfg (Some (JArr xs)) = Some (fail cfg 400
     ''Request must contain exactly one of: fibonacci, prime, lcm, hcf, AI'')"
  "post_bfhl_v2 coerce cfg (Some (JArr xs)) = Some (fail cfg 400
     ''Request must contain exactly one of: fibonacci, prime, lcm, hcf, AI'')"
  by (simp_all add: post_bfhl_def post_bfhl_v2_def select_key_JArr)

lemma set_validKeys: "set validKeys = {''fibonacci'', ''prime'', ''lcm'', ''hcf'', ''AI'', ''ai''}"
  by (simp add: validKeys_def)

text \<open>
  C3. Both variants accept a body for dispatch if and only if it is an object with exactly
  one key and that key is one of \<open>fibonacci\<close>, \<open>prime\<close>, \<open>lcm\<close>, \<open>hcf\<close>, \<open>AI\<close>,
  \<open>ai\<close>; every other object (no recognized key, several of them, or another key beside
  a recognized one) and every array is answered HTTP 400 with \<open>is_success: false\<close>, and
  an accepted one goes to the \<open>switch\<close> with \<open>ai\<close> turned into \<open>AI\<close>.
\<close>

theorem exactly_one_recognized_key_or_400:
  "(select_key (JObj kvs) \<noteq> None)
      = (\<exists>k v. kvs = [(k, v)] \<and> k \<in> {''fibonacci'', ''prime'', ''lcm'', ''hcf'', ''AI'', ''ai''})
   \<and> (select_key_v2 (JObj kvs) \<noteq> None)
      = (\<exists>k v. kvs = [(k, v)] \<and> k \<in> {''fibonacci'', ''prime'', ''lcm'', ''hcf'', ''AI'', ''ai''})
   \<and> (\<not> (\<exists>k v. kvs = [(k, v)]
            \<and> k \<in> {''fibonacci'', ''prime'', ''lcm'', ''hcf'', ''AI'', ''ai''}) \<longrightarrow>
        post_bfhl cfg (Some (JObj kvs)) = Some (fail cfg 400
          ''Request must contain exactly one of: fibonacci, prime, lcm, hcf, AI'')
        \<and> post_bfhl_v2 coerce cfg (Some (JObj kvs)) = Some (fail cfg 400
          ''Request must contain exactly one of: fibonacci, prime, lcm, hcf, AI'')
        \<and> status (fail cfg 400
          ''Request must contain exactly one of: fibonacci, prime, lcm, hcf, AI'') = 400
        \<and> \<not> is_success (fail cfg 400
          ''Request must contain exactly one of: fibonacci, prime, lcm, hcf, AI''))
   \<and> (k \<in> {''fibonacci'', ''prime'', ''lcm'', ''hcf'', ''AI'', ''ai''} \<longrightarrow>
        post_bfhl cfg (Some (JObj [(k, v)])) =
          switch_key cfg (JObj [(k, v)]) (if toLowerCase k = ''ai'' then ''AI'' else k)
        \<and> post_bfhl_v2 coerce cfg (Some (JObj [(k, v)])) =
          (case switch_key_v2 coerce cfg (JObj [(k, v)])
                  (if toLowerCase k = ''ai'' then ''AI'' else k) of
             None \<Rightarrow> None
           | Some (Inl message) \<Rightarrow> Some (fail cfg 400 message)
           | Some (Inr r) \<Rightarrow> Some r))
   \<and> post_bfhl cfg (Some (JArr xs)) = Some (fail cfg 400
          ''Request must contain exactly one of: fibonacci, prime, lcm, hcf, AI'')
   \<and> post_bfhl_v2 coerce cfg (Some (JArr xs)) = Some (fail cfg 400
          ''Request must contain exactly one of: fibonacci, prime, lcm, hcf, AI'')"
proof (intro conjI impI)
  show "(select_key (JObj kvs) \<noteq> None)
      = (\<exists>k v. kvs = [(k, v)] \<and> k \<in> {''fibonacci'', ''prime'', ''lcm'', ''hcf'', ''AI'', ''ai''})"
    unfolding select_key_JObj set_validKeys [symmetric] single_valid_iff ..
  show "(select_key_v2 (JObj kvs) \<noteq> None)
      = (\<exists>k v. kvs = [(k, v)] \<and> k \<in> {''fibonacci'', ''prime'', ''lcm'', ''hcf'', ''AI'', ''ai''})"
    unfolding select_key_v2_JObj set_validKeys [symmetric] single_valid_iff ..
next
  assume "\<not> (\<exists>k v. kvs = [(k, v)]
      \<and> k \<in> {''fibonacci'', ''prime'', ''lcm'', ''hcf'', ''AI'', ''ai''})"
  then have n: "(case kvs of [(k, v)] \<Rightarrow> if k \<in> set validKeys then Some k else None | _ \<Rightarrow> None) = None"
    unfolding set_validKeys [symmetric] single_valid_iff by simp
  show "post_bfhl cfg (Some (JObj kvs)) = Some (fail cfg 400
          ''Request must contain exactly one of: fibonacci, prime, lcm, hcf, AI'')"
    by (simp add: post_bfhl_def select_key_JObj n)
  show "post_bfhl_v2 coerce cfg (Some (JObj kvs)) = Some (fail cfg 400
          ''Request must contain exactly one of: fibonacci, prime, lcm, hcf, AI'')"
    by (simp add: post_bfhl_v2_def select_key_v2_JObj n)
  show "status (fail cfg 400
          ''Request must contain exactly one of: fibonacci, prime, lcm, hcf, AI'') = 400"
    by (simp add: fail_def)
  show "\<not> is_success (fail cfg 400
          ''Request must contain exactly one of: fibonacci, prime, lcm, hcf, AI'')"
    by (simp add: fail_def)
next
  assume "k \<in> {''fibonacci'', ''prime'', ''lcm'', ''hcf'', ''AI'', ''ai''}"
  then have k: "k \<in> set validKeys" by (simp only: set_validKeys)
  show "post_bfhl cfg (Some (JObj [(k, v)])) =
          switch_key cfg (JObj [(k, v)]) (if toLowerCase k = ''ai'' then ''AI'' else k)"
    using k by (simp add: post_bfhl_def select_key_JObj)
  show "post_bfhl_v2 coerce cfg (Some (JObj [(k, v)])) =
          (case switch_key_v2 coerce cfg (JObj [(k, v)])
                  (if toLowerCase k = ''ai'' then ''AI'' else k) of
             None \<Rightarrow> None
           | Some (Inl message) \<Rightarrow> Some (fail cfg 400 message)
           | Some (Inr r) \<Rightarrow> Some r)"
    using k by (simp add: post_bfhl_v2_def select_key_v2_JObj)
next
  show "post_bfhl cfg (Some (JArr xs)) = Some (fail cfg 400
          ''Request must contain exactly one of: fibonacci, prime, lcm, hcf, AI'')"
    by (rule post_bfhl_JArr)
  show "post_bfhl_v2 coerce cfg (Some (JArr xs)) = Some (fail cfg 400
          ''Request must contain exactly one of: fibonacci, prime, lcm, hcf, AI'')"
    by (rule post_bfhl_JArr)
qed

theorem exactly_one_recognized_key_or_400_witness:
  "select_key (JObj [(''fibonacci'', JNull)]) \<noteq> None
   \<and> select_key (JObj [(''prime'', JNull)]) \<noteq> None
   \<and> select_key (JObj [(''lcm'', JNull)]) \<noteq> None
   \<and> select_key (JObj [(''hcf'', JNull)]) \<noteq> None
   \<and> select_key (JObj [(''AI'', JNull)]) \<noteq> None
   \<and> select_key (JObj [(''ai'', JNull)]) \<noteq> None
   \<and> select_key_v2 (JObj [(''fibonacci'', JNull)]) \<noteq> None
   \<and> select_key_v2 (JObj [(''prime'', JNull)]) \<noteq> None
   \<and> select_key_v2 (JObj [(''lcm'', JNull)]) \<noteq> None
   \<and> select_key_v2 (JObj [(''hcf'', JNull)]) \<noteq> None
   \<and> select_key_v2 (JObj [(''AI'', JNull)]) \<noteq> None
   \<and> select_key_v2 (JObj [(''ai'', JNull)]) \<noteq> None
   \<and> post_bfhl (startup None None failing_client)
      (Some (JObj [(''fibonacci'', JNum (Fin 7)), (''prime'', JArr [JNum (Fin 2)])]))
     = Some (fail (startup None None failing_client) 400
          ''Request must contain exactly one of: fibonacci, prime, lcm, hcf, AI'')
   \<and> post_bfhl_v2 (\<lambda>v. NaN) (startup None None failing_client)
      (Some (JObj [(''fibonacci'', JNum (Fin 7)), (''prime'', JArr [JNum (Fin 2)])]))
     = Some (fail (startup None None failing_client) 400
          ''Request must contain exactly one of: fibonacci, prime, lcm, hcf, AI'')
   \<and> post_bfhl (startup None None failing_client)
      (Some (JObj [(''fibonacci'', JNum (Fin 7)), (''extra'', JNull)]))
     = Some (fail (startup None None failing_client) 400
          ''Request must contain exactly one of: fibonacci, prime, lcm, hcf, AI'')
   \<and> post_bfhl_v2 (\<lambda>v. NaN) (startup None None failing_client)
      (Some (JObj [(''fibonacci'', JNum (Fin 7)), (''extra'', JNull)]))
     = Some (fail (startup None None failing_client) 400
          ''Request must contain exactly one of: fibonacci, prime, lcm, hcf, AI'')
   \<and> post_bfhl (startup None None failing_client) (Some (JObj [(''Fibonacci'', JNum (Fin 7))]))
     = Some (fail (startup None None failing_client) 400
          ''Request must contain exactly one of: fibonacci, prime, lcm, hcf, AI'')
   \<and> post_bfhl (startup None None failing_client) (Some (JObj []))
     = Some (fail (startup None None failing_client) 400
          ''Request must contain exactly one of: fibonacci, prime, lcm, hcf, AI'')"
proof -
  note T = exactly_one_recognized_key_or_400
  have a1: "select_key (JObj [(''fibonacci'', JNull)]) \<noteq> None"
    using T [of "[(''fibonacci'', JNull)]", THEN conjunct1] by simp
  have a2: "select_key (JObj [(''prime'', JNull)]) \<noteq> None"
    using T [of "[(''prime'', JNull)]", THEN conjunct1] by simp
  have a3: "select_key (JObj [(''lcm'', JNull)]) \<noteq> None"
    using T [of "[(''lcm'', JNull)]", THEN conjunct1] by simp
  have a4: "select_key (JObj [(''hcf'', JNull)]) \<noteq> None"
    using T [of "[(''hcf'', JNull)]", THEN conjunct1] by simp
  have a5: "select_key (JObj [(''AI'', JNull)]) \<noteq> None"
    using T [of "[(''AI'', JNull)]", THEN conjunct1] by simp
  have a6: "select_key (JObj [(''ai'', JNull)]) \<noteq> None"
    using T [of "[(''ai'', JNull)]", THEN conjunct1] by simp
  have b1: "select_key_v2 (JObj [(''fibonacci'', JNull)]) \<noteq> None"
    using T [of "[(''fibonacci'', JNull)]", THEN conjunct2, THEN conjunct1] by simp
  have b2: "select_key_v2 (JObj [(''prime'', JNull)]) \<noteq> None"
    using T [of "[(''prime'', JNull)]", THEN conjunct2, THEN conjunct1] by simp
  have b3: "select_key_v2 (JObj [(''lcm'', JNull)]) \<noteq> None"
    using T [of "[(''lcm'', JNull)]", THEN conjunct2, THEN conjunct1] by simp
  have b4: "select_key_v2 (JObj [(''hcf'', JNull)]) \<noteq> None"
    using T [of "[(''hcf'', JNull)]", THEN conjunct2, THEN conjunct1] by simp
  have b5: "select_key_v2 (JObj [(''AI'', JNull)]) \<noteq> None"
    using T [of "[(''AI'', JNull)]", THEN conjunct2, THEN conjunct1] by simp
  have b6: "select_key_v2 (JObj [(''ai'', JNull)]) \<noteq> None"
    using T [of "[(''ai'', JNull)]", THEN conjunct2, THEN conjunct1] by simp
  have n1: "\<not> (\<exists>k v. [(''fibonacci'', JNum (Fin 7)), (''prime'', JArr [JNum (Fin 2)])] = [(k, v)]
      \<and> k \<in> {''fibonacci'', ''prime'', ''lcm'', ''hcf'', ''AI'', ''ai''})" by simp
  note r1 = T [of "[(''fibonacci'', JNum (Fin 7)), (''prime'', JArr [JNum (Fin 2)])]"
      "startup None None failing_client" "\<lambda>v. NaN",
      THEN conjunct2, THEN conjunct2, THEN conjunct1, rule_format, OF n1]
  have n2: "\<not> (\<exists>k v. [(''fibonacci'', JNum (Fin 7)), (''extra'', JNull)] = [(k, v)]
      \<and> k \<in> {''fibonacci'', ''prime'', ''lcm'', ''hcf'', ''AI'', ''ai''})" by simp
  note r2 = T [of "[(''fibonacci'', JNum (Fin 7)), (''extra'', JNull)]"
      "startup None None failing_client" "\<lambda>v. NaN",
      THEN conjunct2, THEN conjunct2, THEN conjunct1, rule_format, OF n2]
  have n3: "\<not> (\<exists>k v. [(''Fibonacci'', JNum (Fin 7))] = [(k, v)]
      \<and> k \<in> {''fibonacci'', ''prime'', ''lcm'', ''hcf'', ''AI'', ''ai''})" by simp
  note r3 = T [of "[(''Fibonacci'', JNum (Fin 7))]"
      "startup None None failing_client" "\<lambda>v. NaN",
      THEN conjunct2, THEN conjunct2, THEN conjunct1, rule_format, OF n3]
  have n4: "\<not> (\<exists>k v. ([] :: (string \<times> json) list) = [(k, v)]
      \<and> k \<in> {''fibonacci'', ''prime'', ''lcm'', ''hcf'', ''AI'', ''ai''})" by simp
  note r4 = T [of "[]" "startup None None failing_client" "\<lambda>v. NaN",
      THEN conjunct2, THEN conjunct2, THEN conjunct1, rule_format, OF n4]
  show ?thesis
    using a1 a2 a3 a4 a5 a6 b1 b2 b3 b4 b5 b6
      r1 [THEN conjunct1] r1 [THEN conjunct2, THEN conjunct1]
      r2 [THEN conjunct1] r2 [THEN conjunct2, THEN conjunct1]
      r3 [THEN conjunct1] r4 [THEN conjunct1]
    by (intro conjI)
qed

section \<open>The handler: the envelope\<close>

lemma envelope_ok_fail [simp]: "envelope_ok (fail cfg s msg)"
  by (simp add: envelope_ok_def fail_def)

lemma envelope_ok_succeed [simp]: "envelope_ok (succeed cfg d)"
  by (simp add: envelope_ok_def succeed_def)

lemma email_fail [simp]: "official_email (fail cfg s msg) = OFFICIAL_EMAIL cfg"
  by (simp add: fail_def)

lemma email_succeed [simp]: "official_email (succeed cfg d) = OFFICIAL_EMAIL cfg"
  by (simp add: succeed_def)

lemma switch_key_fibonacci:
  "switch_key cfg body ''fibonacci'' = Some r \<Longrightarrow>
   envelope_ok r \<and> official_email r = OFFICIAL_EMAIL cfg"
  unfolding switch_key_def Let_def
  by (auto split: option.splits json.splits if_splits)

lemma switch_key_prime:
  "switch_key cfg body ''prime'' = Some r \<Longrightarrow>
   envelope_ok r \<and> official_email r = OFFICIAL_EMAIL cfg"
  unfolding switch_key_def Let_def
  by (auto split: option.splits json.splits if_splits)

lemma switch_key_lcm:
  "switch_key cfg body ''lcm'' = Some r \<Longrightarrow>
   envelope_ok r \<and> official_email r = OFFICIAL_EMAIL cfg"
  unfolding switch_key_def Let_def
  by (auto split: option.splits json.splits if_splits)

lemma switch_key_hcf:
  "switch_key cfg body ''hcf'' = Some r \<Longrightarrow>
   envelope_ok r \<and> official_email r = OFFICIAL_EMAIL cfg"
  unfolding switch_key_def Let_def
  by (auto split: option.splits json.splits if_splits)

lemma switch_key_AI:
  "switch_key cfg body ''AI'' = Some r \<Longrightarrow>
   envelope_ok r \<and> official_email r = OFFICIAL_EMAIL cfg"
  unfolding switch_key_def Let_def
  by (auto split: option.splits json.splits if_splits)

lemma switch_key_other:
  "key \<notin> {''fibonacci'', ''prime'', ''lcm'', ''hcf'', ''AI''} \<Longrightarrow>
   switch_key cfg body key = Some r \<Longrightarrow>
   envelope_ok r \<and> official_email r = OFFICIAL_EMAIL cfg"
  unfolding switch_key_def by auto

lemma switch_key_envelope:
  assumes "switch_key cfg body key = Some r"
  shows "envelope_ok r \<and> official_email r = OFFICIAL_EMAIL cfg"
proof (cases "key \<in> {''fibonacci'', ''prime'', ''lcm'', ''hcf'', ''AI''}")
  case True
  then consider "key = ''fibonacci''" | "key = ''prime''" | "key = ''lcm''" | "key = ''hcf''"
    | "key = ''AI''" by blast
  then show ?thesis
  proof cases
    case 1
    with assms show ?thesis by (simp only: switch_key_fibonacci)
  next
    case 2
    with assms show ?thesis by (simp only: switch_key_prime)
  next
    case 3
    with assms show ?thesis by (simp only: switch_key_lcm)
  next
    case 4
    with assms show ?thesis by (simp only: switch_key_hcf)
  next
    case 5
    with assms show ?thesis by (simp only: switch_key_AI)
  qed
next
  case False
  then show ?thesis using assms by (rule switch_key_other)
qed

lemma post_bfhl_envelope:
  "post_bfhl cfg req_body = Some r \<Longrightarrow> envelope_ok r \<and> official_email r = OFFICIAL_EMAIL cfg"
  unfolding post_bfhl_def
  by (auto split: if_splits option.splits dest: switch_key_envelope)

lemma toLowerCase_validKeys:
  "toLowerCase ''AI'' = ''ai''" "toLowerCase ''ai'' = ''ai''"
  "toLowerCase ''fibonacci'' = ''fibonacci''" "toLowerCase ''prime'' = ''prime''"
  "toLowerCase ''lcm'' = ''lcm''" "toLowerCase ''hcf'' = ''hcf''"
  by code_simp+

lemma normalized_key:
  "k \<in> set validKeys \<Longrightarrow>
   (if toLowerCase k = ''ai'' then ''AI'' else k) \<in> {''fibonacci'', ''prime'', ''lcm'', ''hcf'', ''AI''}"
  unfolding validKeys_def using toLowerCase_validKeys by auto

lemma switch_key_v2_fibonacci:
  "switch_key_v2 coerce cfg body ''fibonacci'' = Some (Inr r) \<Longrightarrow>
   envelope_ok r \<and> official_email r = OFFICIAL_EMAIL cfg"
  unfolding switch_key_v2_def
  by (auto split: option.splits json.splits if_splits)

lemma switch_key_v2_prime:
  "switch_key_v2 coerce cfg body ''prime'' = Some (Inr r) \<Longrightarrow>
   envelope_ok r \<and> official_email r = OFFICIAL_EMAIL cfg"
  unfolding switch_key_v2_def
  by (auto split: option.splits json.splits if_splits)

lemma switch_key_v2_lcm:
  "switch_key_v2 coerce cfg body ''lcm'' = Some (Inr r) \<Longrightarrow>
   envelope_ok r \<and> official_email r = OFFICIAL_EMAIL cfg"
  unfolding switch_key_v2_def
  by (auto split: option.splits json.splits if_splits)

lemma switch_key_v2_hcf:
  "switch_key_v2 coerce cfg body ''hcf'' = Some (Inr r) \<Longrightarrow>
   envelope_ok r \<and> official_email r = OFFICIAL_EMAIL cfg"
  unfolding switch_key_v2_def
  by (auto split: option.splits json.splits if_splits)

lemma switch_key_v2_AI:
  "switch_key_v2 coerce cfg body ''AI'' = Some (Inr r) \<Longrightarrow>
   envelope_ok r \<and> official_email r = OFFICIAL_EMAIL cfg"
  unfolding switch_key_v2_def
  by (auto split: option.splits json.splits if_splits)

lemma switch_key_v2_envelope:
  assumes "key \<in> {''fibonacci'', ''prime'', ''lcm'', ''hcf'', ''AI''}"
    and "switch_key_v2 coerce cfg body key = Some (Inr r)"
  shows "envelope_ok r \<and> official_email r = OFFICIAL_EMAIL cfg"
proof -
  from assms(1) consider "key = ''fibonacci''" | "key = ''prime''" | "key = ''lcm''"
    | "key = ''hcf''" | "key = ''AI''" by blast
  then show ?thesis
  proof cases
    case 1
    with assms(2) show ?thesis by (simp only: switch_key_v2_fibonacci)
  next
    case 2
    with assms(2) show ?thesis by (simp only: switch_key_v2_prime)
  next
    case 3
    with assms(2) show ?thesis by (simp only: switch_key_v2_lcm)
  next
    case 4
    with assms(2) show ?thesis by (simp only: switch_key_v2_hcf)
  next
    case 5
    with assms(2) show ?thesis by (simp only: switch_key_v2_AI)
  qed
qed

lemma select_key_v2_valid: "select_key_v2 body = Some k \<Longrightarrow> k \<in> set validKeys"
  unfolding select_key_v2_def Let_def
  by (auto split: if_splits simp: find_Some_iff)

lemma post_bfhl_v2_envelope:
  assumes "post_bfhl_v2 coerce cfg req_body = Some r"
  shows "envelope_ok r \<and> official_email r = OFFICIAL_EMAIL cfg"
proof -
  define body where "body = (case req_body of None \<Rightarrow> JObj [] | Some b \<Rightarrow> if falsy b then JObj [] else b)"
  show ?thesis
  proof (cases "select_key_v2 body")
    case None
    with assms show ?thesis by (auto simp: post_bfhl_v2_def body_def [symmetric])
  next
    case (Some k)
    let ?key = "if toLowerCase k = ''ai'' then ''AI'' else k"
    have key: "?key \<in> {''fibonacci'', ''prime'', ''lcm'', ''hcf'', ''AI''}"
      using select_key_v2_valid [OF Some] by (rule normalized_key)
    from assms Some have c: "(case switch_key_v2 coerce cfg body ?key of
        None \<Rightarrow> None | Some (Inl message) \<Rightarrow> Some (fail cfg 400 message) | Some (Inr r) \<Rightarrow> Some r) = Some r"
      by (simp add: post_bfhl_v2_def body_def [symmetric])
    show ?thesis
    proof (cases "switch_key_v2 coerce cfg body ?key")
      case None
      with c show ?thesis by simp
    next
      case s: (Some res)
      show ?thesis
      proof (cases res)
        case (Inl m)
        with c s show ?thesis by auto
      next
        case (Inr r')
        with c s have "r' = r" by simp
        with s Inr show ?thesis using switch_key_v2_envelope [OF key] by simp
      qed
    qed
  qed
qed

text \<open>
  C4. Every response that the handler of POST /bfhl sends, in both variants, carries
  \<open>is_success\<close> and the configured \<open>official_email\<close> and exactly one of \<open>data\<close> and
  \<open>error\<close>: \<open>data\<close> if and only if \<open>is_success\<close> is true, \<open>error\<close> (a string) if and
  only if it is false.
\<close>

theorem every_response_is_a_consistent_envelope:
  "(post_bfhl cfg req_body = Some r \<longrightarrow>
      envelope_ok r \<and> official_email r = OFFICIAL_EMAIL cfg)
   \<and> (post_bfhl_v2 coerce cfg req_body = Some r \<longrightarrow>
      envelope_ok r \<and> official_email r = OFFICIAL_EMAIL cfg)"
  using post_bfhl_envelope post_bfhl_v2_envelope by blast


theorem every_response_is_a_consistent_envelope_witness:
  "post_bfhl (startup None None failing_client) (Some (JObj [(''prime'', JArr [JNum (Fin 7)])]))
     = Some (succeed (startup None None failing_client) (JArr [JNum (Fin 7)]))
   \<and> envelope_ok (succeed (startup None None failing_client) (JArr [JNum (Fin 7)]))
   \<and> post_bfhl_v2 (\<lambda>v. NaN) (startup None None failing_client)
        (Some (JObj [(''AI'', JStr ''hi'')]))
     = Some (fail (startup None None failing_client) 503 ''AI service unavailable'')
   \<and> envelope_ok (fail (startup None None failing_client) 503 ''AI service unavailable'')"
proof -
  have 1: "post_bfhl (startup None None failing_client)
      (Some (JObj [(''prime'', JArr [JNum (Fin 7)])]))
     = Some (succeed (startup None None failing_client) (JArr [JNum (Fin 7)]))"
    by code_simp
  have 2: "post_bfhl_v2 (\<lambda>v. NaN) (startup None None failing_client)
        (Some (JObj [(''AI'', JStr ''hi'')]))
     = Some (fail (startup None None failing_client) 503 ''AI service unavailable'')"
    by code_simp
  note a = every_response_is_a_consistent_envelope
    [of "startup None None failing_client" "Some (JObj [(''prime'', JArr [JNum (Fin 7)])])"
        "succeed (startup None None failing_client) (JArr [JNum (Fin 7)])",
     THEN conjunct1, rule_format, OF 1, THEN conjunct1]
  note b = every_response_is_a_consistent_envelope
    [of "startup None None failing_client" "Some (JObj [(''AI'', JStr ''hi'')])"
        "fail (startup None None failing_client) 503 ''AI service unavailable''" "\<lambda>v. NaN",
     THEN conjunct2, rule_format, OF 2, THEN conjunct1]
  show ?thesis using 1 a 2 b by (intro conjI)
qed

section \<open>The AI operation\<close>

lemma post_bfhl_single:
  "k \<in> set validKeys \<Longrightarrow>
   post_bfhl cfg (Some (JObj [(k, v)])) =
     switch_key cfg (JObj [(k, v)]) (if toLowerCase k = ''ai'' then ''AI'' else k)"
  by (simp add: post_bfhl_def select_key_JObj)

lemma question_of_body:
  "k = ''AI'' \<or> k = ''ai'' \<Longrightarrow>
   nullish_or (get_prop (JObj [(k, JStr q)]) ''AI'') (get_prop (JObj [(k, JStr q)]) ''ai'')
     = Some (JStr q)"
  by (auto simp: nullish_or_def)

lemma post_bfhl_AI:
  assumes "k = ''AI'' \<or> k = ''ai''"
  shows "post_bfhl cfg (Some (JObj [(k, JStr q)])) =
     (if length (trim q) = 0
      then Some (fail cfg 400 ''AI must receive a non-empty string question'')
      else if length q > 500 then Some (fail cfg 400 ''Question too long'')
      else (case getAIResponse cfg (Some (JStr (trim q))) of
              None \<Rightarrow> Some (fail cfg 503
                ''AI service unavailable. Set GEMINI_API_KEY environment variable.'')
            | Some answer \<Rightarrow> Some (succeed cfg (JStr answer))))"
proof -
  have v: "k \<in> set validKeys" using assms by (auto simp: validKeys_def)
  have n: "(if toLowerCase k = ''ai'' then ''AI'' else k) = ''AI''"
    using assms toLowerCase_validKeys by auto
  note g = question_of_body [OF assms, of q]
  show ?thesis
    unfolding post_bfhl_single [OF v] n switch_key_def g
    by simp
qed

lemma getAIResponse_None_iff:
  "q \<noteq> [] \<Longrightarrow> (getAIResponse cfg (Some (JStr q)) = None) = unavailable cfg q"
  unfolding getAIResponse_def unavailable_def Let_def
  by (simp split: option.splits provider_result.splits)

lemma startup_no_key:
  "env_key = None \<or> env_key = Some [] \<Longrightarrow> genAI (startup env_email env_key client) = None"
  by (auto simp: startup_def)

text \<open>
  C2, as amended. For a request with the AI key (\<open>AI\<close> or \<open>ai\<close>) and a question that has
  a character other than white space and at most 500 characters: if no credential was
  configured when the process started, the response is HTTP 503 with \<open>is_success: false\<close>;
  more generally a missing credential, an error of the provider, a response without text
  and a blank text all make \<open>getAIResponse\<close> return \<open>null\<close>, and the response is the same
  503 envelope with a fixed message, whatever the provider reported.
\<close>

theorem ai_unavailable_is_503:
  "(k = ''AI'' \<or> k = ''ai'') \<and> trim q \<noteq> [] \<and> length q \<le> 500 \<longrightarrow>
     (env_key = None \<or> env_key = Some [] \<longrightarrow>
        post_bfhl (startup env_email env_key client) (Some (JObj [(k, JStr q)]))
          = Some (fail (startup env_email env_key client) 503
              ''AI service unavailable. Set GEMINI_API_KEY environment variable.''))
     \<and> (unavailable cfg (trim q) \<longrightarrow>
        getAIResponse cfg (Some (JStr (trim q))) = None
        \<and> post_bfhl cfg (Some (JObj [(k, JStr q)]))
          = Some (fail cfg 503
              ''AI service unavailable. Set GEMINI_API_KEY environment variable.''))
     \<and> status (fail cfg 503
          ''AI service unavailable. Set GEMINI_API_KEY environment variable.'') = 503
     \<and> \<not> is_success (fail cfg 503
          ''AI service unavailable. Set GEMINI_API_KEY environment variable.'')"
proof (intro impI conjI)
  assume a: "(k = ''AI'' \<or> k = ''ai'') \<and> trim q \<noteq> [] \<and> length q \<le> 500"
  then have k: "k = ''AI'' \<or> k = ''ai''" and t: "trim q \<noteq> []" and l: "\<not> 500 < length q"
    by simp_all
  have u: "post_bfhl c (Some (JObj [(k, JStr q)]))
      = Some (fail c 503 ''AI service unavailable. Set GEMINI_API_KEY environment variable.'')"
    if "unavailable c (trim q)" for c
  proof -
    have "getAIResponse c (Some (JStr (trim q))) = None"
      using that t by (simp add: getAIResponse_None_iff)
    then show ?thesis using t l by (simp add: post_bfhl_AI [OF k])
  qed
  show "post_bfhl (startup env_email env_key client) (Some (JObj [(k, JStr q)]))
          = Some (fail (startup env_email env_key client) 503
              ''AI service unavailable. Set GEMINI_API_KEY environment variable.'')"
    if "env_key = None \<or> env_key = Some []"
  proof (rule u)
    show "unavailable (startup env_email env_key client) (trim q)"
      using startup_no_key [OF that] by (simp add: unavailable_def)
  qed
  show "getAIResponse cfg (Some (JStr (trim q))) = None" if "unavailable cfg (trim q)"
    using that t by (simp add: getAIResponse_None_iff)
  show "post_bfhl cfg (Some (JObj [(k, JStr q)]))
          = Some (fail cfg 503
              ''AI service unavailable. Set GEMINI_API_KEY environment variable.'')"
    if "unavailable cfg (trim q)"
    using that by (rule u)
next
  show "status (fail cfg 503
          ''AI service unavailable. Set GEMINI_API_KEY environment variable.'') = 503"
    by (simp add: fail_def)
  show "\<not> is_success (fail cfg 503
          ''AI service unavailable. Set GEMINI_API_KEY environment variable.'')"
    by (simp add: fail_def)
qed

lemma trim_hi: "trim ''hi'' = ''hi''"
  by code_simp

theorem ai_unavailable_is_503_witness:
  "post_bfhl (startup None None answering_client) (Some (JObj [(''AI'', JStr ''hi'')]))
     = Some (fail (startup None None answering_client) 503
         ''AI service unavailable. Set GEMINI_API_KEY environment variable.'')
   \<and> post_bfhl (startup None (Some ''key'') failing_client) (Some (JObj [(''ai'', JStr ''hi'')]))
     = Some (fail (startup None (Some ''key'') failing_client) 503
         ''AI service unavailable. Set GEMINI_API_KEY environment variable.'')"
proof -
  have h: "(''AI'' = ''AI'' \<or> ''AI'' = ''ai'') \<and> trim ''hi'' \<noteq> [] \<and> length ''hi'' \<le> 500"
    by (simp add: trim_hi)
  have h': "(''ai'' = ''AI'' \<or> ''ai'' = ''ai'') \<and> trim ''hi'' \<noteq> [] \<and> length ''hi'' \<le> 500"
    by (simp add: trim_hi)
  have 1: "post_bfhl (startup None None answering_client) (Some (JObj [(''AI'', JStr ''hi'')]))
     = Some (fail (startup None None answering_client) 503
         ''AI service unavailable. Set GEMINI_API_KEY environment variable.'')"
    by (rule ai_unavailable_is_503 [of "''AI''" "''hi''" None None answering_client,
          rule_format, OF h, THEN conjunct1, rule_format]) simp
  have "unavailable (startup None (Some ''key'') failing_client) (trim ''hi'')"
    by (simp add: unavailable_def startup_def failing_client_def)
  then have 2: "post_bfhl (startup None (Some ''key'') failing_client)
       (Some (JObj [(''ai'', JStr ''hi'')]))
     = Some (fail (startup None (Some ''key'') failing_client) 503
         ''AI service unavailable. Set GEMINI_API_KEY environment variable.'')"
    by (rule ai_unavailable_is_503 [of "''ai''" "''hi''" _ _ _
          "startup None (Some ''key'') failing_client",
          rule_format, OF h', THEN conjunct2, THEN conjunct1, rule_format, THEN conjunct2])
  show ?thesis using 1 2 by (intro conjI)
qed

text \<open>
  C2 as stated fails: without a credential, a question of 501 characters and a question of
  one space, both non-empty strings, are answered 400.
\<close>

theorem ai_without_credential_can_be_400:
  "post_bfhl (startup None None failing_client)
       (Some (JObj [(''AI'', JStr (replicate 501 (CHR ''a'')))]))
     = Some (fail (startup None None failing_client) 400 ''Question too long'')
   \<and> post_bfhl (startup None None failing_client) (Some (JObj [(''AI'', JStr '' '')]))
     = Some (fail (startup None None failing_client) 400
         ''AI must receive a non-empty string question'')
   \<and> status (fail (startup None None failing_client) 400 ''Question too long'') = 400"
proof -
  have w: "\<not> is_ws (CHR ''a'')" by code_simp
  have t: "trim (replicate 501 (CHR ''a'')) = replicate 501 (CHR ''a'')"
    by (simp add: trim_def dropWhile_replicate w)
  have s: "trim '' '' = []" by code_simp
  have 1: "post_bfhl (startup None None failing_client)
       (Some (JObj [(''AI'', JStr (replicate 501 (CHR ''a'')))]))
     = Some (fail (startup None None failing_client) 400 ''Question too long'')"
    by (simp add: post_bfhl_AI t)
  have 2: "post_bfhl (startup None None failing_client) (Some (JObj [(''AI'', JStr '' '')]))
     = Some (fail (startup None None failing_client) 400
         ''AI must receive a non-empty string question'')"
    by (simp add: post_bfhl_AI s)
  have 3: "status (fail (startup None None failing_client) 400 ''Question too long'') = 400"
    by (simp add: fail_def)
  show ?thesis using 1 2 3 by (intro conjI)
qed

section \<open>Valid payloads\<close>

lemma get_prop_single: "get_prop (JObj [(k, v)]) k = Some v"
  by simp

lemma post_bfhl_fibonacci:
  assumes "valid_payload ''fibonacci'' v"
  shows "post_bfhl cfg (Some (JObj [(''fibonacci'', v)]))
    = Some (succeed cfg (JArr (map JNum (fibonacci (the_int v)))))"
proof -
  from assms have i: "isInteger v" and ge: "js_ge (the_num v) (Fin 0)"
    and le: "js_le (the_num v) (Fin 1000)"
    by (simp_all add: valid_payload_def)
  from i obtain n where v: "v = JNum (num n)" using isInteger_num by blast
  from ge le have c: "\<not> js_lt (num n) (Fin 0)" "\<not> js_gt (num n) (Fin 1000)"
    by (auto simp: v js_ge_def js_le_def js_gt_def)
  have k: "''fibonacci'' \<in> set validKeys" by (simp add: validKeys_def)
  have n: "(if toLowerCase ''fibonacci'' = ''ai'' then ''AI'' else ''fibonacci'') = ''fibonacci''"
    by (simp add: toLowerCase_validKeys)
  show ?thesis
    unfolding post_bfhl_single [OF k] n switch_key_def get_prop_single
    using i c by (simp add: v)
qed

lemma filter_all: "list_all P xs \<Longrightarrow> filter P xs = xs"
  by (induction xs) simp_all

lemma post_bfhl_prime:
  assumes "valid_payload ''prime'' v"
  shows "post_bfhl cfg (Some (JObj [(''prime'', v)])) = Some (succeed cfg (JArr (filterPrimes v)))"
proof -
  from assms obtain xs where v: "v = JArr xs"
    by (cases v) (simp_all add: valid_payload_def)
  from assms have a: "list_all (\<lambda>n. isInteger n \<and> js_ge (the_num n) (Fin 0)) xs"
    and l: "\<not> 100 < length xs"
    by (simp_all add: valid_payload_def v)
  have f: "filter (\<lambda>n. isInteger n \<and> js_ge (the_num n) (Fin 0)) xs = xs"
    using a by (rule filter_all)
  have k: "''prime'' \<in> set validKeys" by (simp add: validKeys_def)
  have n: "(if toLowerCase ''prime'' = ''ai'' then ''AI'' else ''prime'') = ''prime''"
    by (simp add: toLowerCase_validKeys)
  show ?thesis
    unfolding post_bfhl_single [OF k] n switch_key_def get_prop_single v
    using l by (simp add: f)
qed

lemma positive_integers_are_nums:
  "list_all positive_integer xs \<Longrightarrow>
   \<exists>ys. xs = map (\<lambda>x. JNum (num x)) ys \<and> (\<forall>y \<in> set ys. 0 < y)"
proof (induction xs)
  case Nil
  show ?case by simp
next
  case (Cons x xs)
  then obtain ys where ys: "xs = map (\<lambda>x. JNum (num x)) ys" "\<forall>y \<in> set ys. 0 < y" by auto
  from Cons.prems obtain p where p: "x = JNum (num p)" "0 < p"
    by (auto simp: positive_integer_iff)
  have "x # xs = map (\<lambda>x. JNum (num x)) (p # ys) \<and> (\<forall>y \<in> set (p # ys). 0 < y)"
    using ys p by simp
  then show ?case by (rule exI)
qed

lemma hcfOfArray_returns:
  assumes "list_all positive_integer xs"
  shows "\<exists>r. hcfOfArray (JArr xs) = Some r"
proof -
  from assms obtain ys where ys: "xs = map (\<lambda>x. JNum (num x)) ys" "\<forall>y \<in> set ys. 0 < y"
    using positive_integers_are_nums by blast
  show ?thesis
  proof (cases ys)
    case Nil
    then show ?thesis by (simp add: hcfOfArray_def ys)
  next
    case (Cons y zs)
    have f: "map the_num (filter positive_integer (map (\<lambda>x. JNum (num x)) ys)) = map num ys"
      using ys(2) by (rule filter_positive_nums)
    have "hcfOfArray (JArr xs) = hcf_loop (num y) (map num zs)"
      unfolding hcfOfArray_def ys(1) isArray.simps elems.simps f by (simp add: Cons)
    moreover have "0 < y" using ys(2) Cons by simp
    ultimately show ?thesis by (simp add: hcf_loop_num)
  qed
qed

lemma post_bfhl_hcf:
  assumes "valid_payload ''hcf'' v"
  shows "\<exists>r. post_bfhl cfg (Some (JObj [(''hcf'', v)])) = Some (succeed cfg (JNum r))"
proof -
  from assms obtain xs where v: "v = JArr xs"
    by (cases v) (simp_all add: valid_payload_def)
  from assms have a: "list_all positive_integer xs" and l: "\<not> 20 < length xs"
    by (simp_all add: valid_payload_def v)
  have f: "filter positive_integer xs = xs" using a by (rule filter_all)
  obtain r where r: "hcfOfArray (JArr xs) = Some r" using hcfOfArray_returns [OF a] ..
  have k: "''hcf'' \<in> set validKeys" by (simp add: validKeys_def)
  have n: "(if toLowerCase ''hcf'' = ''ai'' then ''AI'' else ''hcf'') = ''hcf''"
    by (simp add: toLowerCase_validKeys)
  have "post_bfhl cfg (Some (JObj [(''hcf'', v)])) = Some (succeed cfg (JNum r))"
    unfolding post_bfhl_single [OF k] n switch_key_def get_prop_single v
    using l by (simp add: f r)
  then show ?thesis ..
qed

lemma lcmOfArray_returns:
  assumes "\<forall>y \<in> set ys. 0 < y" "ys \<noteq> [] \<longrightarrow> products_exact (hd ys) (tl ys)"
  shows "\<exists>r. lcmOfArray (JArr (map (\<lambda>x. JNum (num x)) ys)) = Some r"
proof (cases ys)
  case Nil
  then show ?thesis by (simp add: lcmOfArray_def)
next
  case (Cons y zs)
  have f: "map the_num (filter positive_integer (map (\<lambda>x. JNum (num x)) ys)) = map num ys"
    using assms(1) by (rule filter_positive_nums)
  have "lcmOfArray (JArr (map (\<lambda>x. JNum (num x)) ys)) = lcm_loop (num y) (map num zs)"
    unfolding lcmOfArray_def isArray.simps elems.simps f by (simp add: Cons)
  moreover have "0 < y" "\<forall>x \<in> set zs. 0 < x" "products_exact y zs"
    using assms Cons by simp_all
  ultimately show ?thesis by (simp add: lcm_loop_num)
qed

lemma post_bfhl_lcm:
  assumes "valid_payload ''lcm'' v" "v = JArr (map (\<lambda>x. JNum (num x)) ys)"
    "ys \<noteq> [] \<longrightarrow> products_exact (hd ys) (tl ys)"
  shows "\<exists>r. post_bfhl cfg (Some (JObj [(''lcm'', v)])) = Some (succeed cfg (JNum r))"
proof -
  define xs where "xs = map (\<lambda>x. JNum (num x)) ys"
  have v: "v = JArr xs" using assms(2) by (simp add: xs_def)
  from assms(1) have a: "list_all positive_integer xs" and l: "\<not> 20 < length xs"
    by (simp_all add: valid_payload_def v)
  have f: "filter positive_integer xs = xs" using a by (rule filter_all)
  have "\<forall>y \<in> set ys. 0 < y" using a by (simp add: xs_def list_all_iff)
  then obtain r where r: "lcmOfArray (JArr xs) = Some r"
    using lcmOfArray_returns [OF _ assms(3)] unfolding xs_def by blast
  have k: "''lcm'' \<in> set validKeys" by (simp add: validKeys_def)
  have n: "(if toLowerCase ''lcm'' = ''ai'' then ''AI'' else ''lcm'') = ''lcm''"
    by (simp add: toLowerCase_validKeys)
  have "post_bfhl cfg (Some (JObj [(''lcm'', v)])) = Some (succeed cfg (JNum r))"
    unfolding post_bfhl_single [OF k] n switch_key_def get_prop_single v
    using l by (simp add: f r)
  then show ?thesis ..
qed

lemma post_bfhl_AI_answer:
  assumes "k = ''AI'' \<or> k = ''ai''" "trim q \<noteq> []" "length q \<le> 500"
    "\<not> unavailable cfg (trim q)"
  shows "\<exists>answer. post_bfhl cfg (Some (JObj [(k, JStr q)])) = Some (succeed cfg (JStr answer))"
proof -
  have "getAIResponse cfg (Some (JStr (trim q))) \<noteq> None"
    using assms(2,4) by (simp add: getAIResponse_None_iff)
  then obtain answer where "getAIResponse cfg (Some (JStr (trim q))) = Some answer" by blast
  then have "post_bfhl cfg (Some (JObj [(k, JStr q)])) = Some (succeed cfg (JStr answer))"
    using assms(2,3) by (simp add: post_bfhl_AI [OF assms(1)])
  then show ?thesis ..
qed

lemma post_bfhl_AI_unavailable:
  assumes "k = ''AI'' \<or> k = ''ai''" "trim q \<noteq> []" "length q \<le> 500"
    "unavailable cfg (trim q)"
  shows "post_bfhl cfg (Some (JObj [(k, JStr q)])) = Some (fail cfg 503
     ''AI service unavailable. Set GEMINI_API_KEY environment variable.'')"
proof -
  have "getAIResponse cfg (Some (JStr (trim q))) = None"
    using assms(2,4) by (simp add: getAIResponse_None_iff)
  then show ?thesis using assms(2,3) by (simp add: post_bfhl_AI [OF assms(1)])
qed

section \<open>An lcm request that is never answered\<close>

lemma round_div_ge: "0 < d \<Longrightarrow> a div d \<le> round_div a d"
  by (simp add: round_div_def Let_def)

lemma round_double_overflow:
  assumes "2 ^ 1024 \<le> a"
  shows "round_double (of_int a) = PInf"
proof -
  have "(0::int) < 2 ^ 1024" by simp
  with assms have a: "0 < a" by linarith
  define k where "k = nat (bitlen a - 53)"
  have "(2::int) ^ 1024 < 2 ^ nat (bitlen a)"
    using assms bitlen_bounds [OF a] by linarith
  then have "1024 < nat (bitlen a)" by (simp only: power_strict_increasing_iff)
  then have b: "bitlen a = 53 + int k" and k: "972 \<le> k" by (simp_all add: k_def)
  have e: "ilog2 (of_int a) = 52 + int k" using a b by (simp add: ilog2_of_int)
  have q: "max (52 + int k - 52) (- 1074) = int k" by simp
  have p: "pow2 (int k) = of_int (2 ^ k)" by (simp add: pow2_def)
  have r: "round_half_even (of_int a / pow2 (int k)) = round_div a (2 ^ k)"
    unfolding p by (rule round_half_even_div) simp
  have lo: "2 ^ (52 + k) \<le> a"
    using bitlen_bounds [OF a] b by (simp add: nat_add_distrib)
  have "(2::int) ^ 52 \<le> a div 2 ^ k"
  proof -
    have "(2::int) ^ 52 * 2 ^ k \<le> a" using lo by (simp add: power_add)
    then have "(2 ^ 52 * 2 ^ k) div 2 ^ k \<le> a div (2 ^ k :: int)"
      by (intro zdiv_mono1) simp_all
    then show ?thesis by simp
  qed
  also have "\<dots> \<le> round_div a (2 ^ k)" by (rule round_div_ge) simp
  finally have m: "(2::int) ^ 52 \<le> round_div a (2 ^ k)" .
  have "(2::int) ^ 1024 \<le> 2 ^ (52 + k)" using k by (intro power_increasing) simp_all
  also have "\<dots> = 2 ^ 52 * 2 ^ k" by (simp add: power_add)
  also have "\<dots> \<le> round_div a (2 ^ k) * 2 ^ k" using m by (intro mult_right_mono) simp_all
  finally have "(of_int (2 ^ 1024) :: rat) \<le> of_int (round_div a (2 ^ k) * 2 ^ k)"
    by (simp only: of_int_le_iff)
  then have ge: "pow2 1024 \<le> of_int (round_div a (2 ^ k)) * pow2 (int k)"
    unfolding p by (simp add: pow2_def)
  have pos: "(0::rat) < of_int a" using a by simp
  have ne: "(of_int a :: rat) \<noteq> 0" using a by simp
  have ab: "\<bar>of_int a :: rat\<bar> = of_int a" using a by simp
  show ?thesis
    using ne ge pos by (simp only: round_double_def Let_def ab e q r if_False if_True)
qed

text \<open>
  Once \<open>b\<close> is NaN the loop of \<open>gcd\<close> never ends, and the remainder of an infinity is
  NaN.
\<close>

lemma gcd_loop_returns_not_NaN:
  assumes "gcd_loop a b = Some y"
  shows "b \<noteq> NaN"
  using assms
proof (rule gcd_loop.raw_induct [where P = "\<lambda>a b y. b \<noteq> NaN", rotated])
  fix f :: "number \<Rightarrow> number \<Rightarrow> number option" and a b y
  assume ih: "\<And>a b y. f a b = Some y \<Longrightarrow> b \<noteq> NaN"
    and st: "(if \<not> js_eq b (Fin 0) then f b (js_rem a b) else Some a) = Some y"
  show "b \<noteq> NaN"
  proof
    assume n: "b = NaN"
    with st have "f NaN (js_rem a NaN) = Some y" by simp
    then have "js_rem a NaN \<noteq> NaN" by (rule ih)
    then show False by (cases a) simp_all
  qed
qed

lemma gcd_loop_NaN: "gcd_loop a NaN = None"
  using gcd_loop_returns_not_NaN [of a NaN] by (cases "gcd_loop a NaN") simp_all

lemma gcd_js_PInf: "0 < b \<Longrightarrow> gcd_js PInf (Fin b) = None"
proof -
  assume b: "0 < b"
  have "gcd_loop PInf (Fin \<bar>b\<bar>) = gcd_loop (Fin \<bar>b\<bar>) (js_rem PInf (Fin \<bar>b\<bar>))"
    using b by (subst gcd_loop.simps) simp
  then show ?thesis by (simp add: gcd_js_def gcd_loop_NaN)
qed

lemma largest_power_facts:
  "0 < largest_power" "2 ^ 1024 \<le> largest_power * 3" "gcd largest_power 3 = 1"
proof -
  show "0 < largest_power" by (simp add: largest_power_def)
  show "2 ^ 1024 \<le> largest_power * 3" by (simp add: largest_power_def)
  have "gcd (2::int) 3 = 1" by code_simp
  then have "coprime (2::int) 3" by (simp only: coprime_iff_gcd_eq_1)
  then have "coprime ((2::int) ^ 1023) 3" by (simp only: coprime_power_left_iff) simp
  then show "gcd largest_power 3 = 1"
    unfolding largest_power_def by (simp only: coprime_iff_gcd_eq_1)
qed

text \<open>
  The array \<open>[2^1023, 3, 5]\<close> passes the checks of the handler. The first product
  overflows to \<open>Infinity\<close>, the next call of \<open>gcd\<close> gets \<open>Infinity\<close>, and no response
  is ever sent.
\<close>

lemma lcmOfArray_overflow_never_returns:
  "lcmOfArray (JArr [JNum (num largest_power), JNum (Fin 3), JNum (Fin 5)]) = None"
proof -
  have "round_double (of_int (largest_power * 3)) = PInf"
    using largest_power_facts(2) by (rule round_double_overflow)
  then have m: "js_mul (num largest_power) (num 3) = PInf" by simp
  have g: "gcd_js (num largest_power) (num 3) = Some (Fin 1)"
    using gcd_js_num [of largest_power 3] by (simp add: largest_power_facts(3))
  have g': "gcd_js PInf (Fin 5) = None" by (rule gcd_js_PInf) simp
  have d: "js_div PInf (Fin 1) = PInf" by simp
  have f: "map the_num (filter positive_integer (map (\<lambda>x. JNum (num x)) [largest_power, 3, 5]))
      = map num [largest_power, 3, 5]"
    by (rule filter_positive_nums) (simp add: largest_power_facts(1))
  have "lcmOfArray (JArr (map (\<lambda>x. JNum (num x)) [largest_power, 3, 5]))
      = lcm_loop (num largest_power) [num 3, num 5]"
    unfolding lcmOfArray_def isArray.simps elems.simps f by simp
  also have "\<dots> = (case gcd_js (num largest_power) (num 3) of None \<Rightarrow> None
      | Some g \<Rightarrow> lcm_loop (js_div (js_mul (num largest_power) (num 3)) g) [num 5])"
    by (simp only: lcm_loop.simps)
  also have "\<dots> = lcm_loop PInf [Fin 5]" by (simp only: g m option.case d) simp
  also have "\<dots> = None" by (simp add: g')
  finally show ?thesis by simp
qed

lemma post_bfhl_lcm_overflow_never_responds:
  "valid_payload ''lcm'' (JArr [JNum (num largest_power), JNum (Fin 3), JNum (Fin 5)])
   \<and> post_bfhl cfg
       (Some (JObj [(''lcm'', JArr [JNum (num largest_power), JNum (Fin 3), JNum (Fin 5)])]))
     = None"
proof -
  have k: "''lcm'' \<in> set validKeys" by (simp add: validKeys_def)
  have n: "(if toLowerCase ''lcm'' = ''ai'' then ''AI'' else ''lcm'') = ''lcm''"
    by (simp add: toLowerCase_validKeys)
  have p: "positive_integer (JNum (num largest_power))"
    "positive_integer (JNum (Fin 3))" "positive_integer (JNum (Fin 5))"
    by (simp_all add: largest_power_facts(1) positive_integer_def js_gt_def)
  have 1: "valid_payload ''lcm'' (JArr [JNum (num largest_power), JNum (Fin 3), JNum (Fin 5)])"
    using p by (simp add: valid_payload_def)
  have 2: "post_bfhl cfg
      (Some (JObj [(''lcm'', JArr [JNum (num largest_power), JNum (Fin 3), JNum (Fin 5)])])) = None"
    unfolding post_bfhl_single [OF k] n switch_key_def get_prop_single
    using p by (simp add: lcmOfArray_overflow_never_returns)
  show ?thesis using 1 2 by (intro conjI)
qed


section \<open>Valid lcm payloads: which ones are answered\<close>

text \<open>
  On finite numbers the loop of \<open>gcd\<close> ends: the remainder is exact, and on fractions
  with a common denominator it is the remainder of the numerators.
\<close>

lemma js_rem_frac:
  assumes "0 \<le> P" "0 < R" "0 < D"
  shows "js_rem (Fin (of_int P / of_int D)) (Fin (of_int R / of_int D))
    = Fin (of_int (P mod R) / of_int D)"
proof -
  have q: "((of_int P :: rat) / of_int D) / (of_int R / of_int D) = of_int P / of_int R"
    using assms(3) by simp
  have "(0::rat) \<le> of_int P / of_int R" using assms by simp
  then have t: "trunc (of_int P / of_int R) = P div R"
    by (simp add: trunc_def floor_divide_of_int_eq)
  have "P mod R = P - R * (P div R)" by (simp add: minus_mult_div_eq_mod)
  then have "(of_int (P mod R) :: rat) = of_int P - of_int R * of_int (P div R)"
    by (simp only: of_int_diff of_int_mult)
  then have "(of_int (P mod R) :: rat) / of_int D
      = of_int P / of_int D - of_int R / of_int D * of_int (P div R)"
    by (simp add: diff_divide_distrib)
  moreover have "(of_int R :: rat) / of_int D \<noteq> 0" using assms by simp
  ultimately show ?thesis by (simp only: js_rem.simps q t if_False)
qed

lemma gcd_loop_frac:
  "0 \<le> P \<Longrightarrow> 0 \<le> R \<Longrightarrow> 0 < D \<Longrightarrow>
   gcd_loop (Fin (of_int P / of_int D)) (Fin (of_int R / of_int D))
     = Some (Fin (of_int (gcd P R) / of_int D))"
proof (induction "nat R" arbitrary: P R rule: less_induct)
  case less
  show ?case
  proof (cases "R = 0")
    case True
    with less.prems show ?thesis by (subst gcd_loop.simps) simp
  next
    case False
    with less.prems have R: "0 < R" by simp
    have m: "0 \<le> P mod R" "P mod R < R" using R by simp_all
    have "gcd_loop (Fin (of_int R / of_int D)) (Fin (of_int (P mod R) / of_int D))
        = Some (Fin (of_int (gcd R (P mod R)) / of_int D))"
      using less.hyps [of "P mod R" R] m R less.prems(3) by simp
    moreover have "gcd R (P mod R) = gcd P R"
      using gcd_red_int [of P R] by simp
    moreover have "js_rem (Fin (of_int P / of_int D)) (Fin (of_int R / of_int D))
        = Fin (of_int (P mod R) / of_int D)"
      using less.prems(1) R less.prems(3) by (rule js_rem_frac)
    moreover have "\<not> js_eq (Fin (of_int R / of_int D)) (Fin 0)"
      using R less.prems(3) by simp
    then have "gcd_loop (Fin (of_int P / of_int D)) (Fin (of_int R / of_int D))
        = gcd_loop (Fin (of_int R / of_int D))
            (js_rem (Fin (of_int P / of_int D)) (Fin (of_int R / of_int D)))"
      by (subst gcd_loop.simps) (simp only: if_True not_False_eq_True)
    ultimately show ?thesis by simp
  qed
qed

lemma nonneg_rat_quotient:
  assumes "(0::rat) \<le> x"
  obtains p q where "0 \<le> p" "0 < q" "x = of_int p / of_int q"
proof -
  obtain p q where pq: "quotient_of x = (p, q)" by (cases "quotient_of x")
  then have q: "0 < q" by (rule quotient_of_denom_pos)
  have x: "x = of_int p / of_int q" using pq by (rule quotient_of_div)
  have "0 \<le> p"
  proof (rule ccontr)
    assume "\<not> 0 \<le> p"
    then have "(of_int p :: rat) / of_int q < 0" using q by (simp add: divide_neg_pos)
    with x assms show False by simp
  qed
  then show ?thesis using q x by (rule that)
qed

lemma gcd_js_finite: "\<exists>g. gcd_js (Fin a) (Fin b) = Some (Fin g)"
proof -
  obtain p1 q1 where a: "0 \<le> p1" "0 < q1" "\<bar>a\<bar> = of_int p1 / of_int q1"
    using nonneg_rat_quotient [of "\<bar>a\<bar>"] by auto
  obtain p2 q2 where b: "0 \<le> p2" "0 < q2" "\<bar>b\<bar> = of_int p2 / of_int q2"
    using nonneg_rat_quotient [of "\<bar>b\<bar>"] by auto
  have a': "\<bar>a\<bar> = of_int (p1 * q2) / of_int (q1 * q2)" using a b by simp
  have b': "\<bar>b\<bar> = of_int (p2 * q1) / of_int (q1 * q2)" using a b by simp
  have "gcd_loop (Fin (of_int (p1 * q2) / of_int (q1 * q2)))
        (Fin (of_int (p2 * q1) / of_int (q1 * q2)))
      = Some (Fin (of_int (gcd (p1 * q2) (p2 * q1)) / of_int (q1 * q2)))"
    using a b by (intro gcd_loop_frac) simp_all
  then have "gcd_js (Fin a) (Fin b)
      = Some (Fin (of_int (gcd (p1 * q2) (p2 * q1)) / of_int (q1 * q2)))"
    by (simp only: gcd_js_def js_abs.simps a' b')
  then show ?thesis by (rule exI)
qed

lemma gcd_js_not_finite:
  assumes "\<forall>x. r \<noteq> Fin x" "b \<noteq> 0"
  shows "gcd_js r (Fin b) = None"
proof -
  have ne: "\<not> js_eq (Fin \<bar>b\<bar>) (Fin 0)" using assms(2) by simp
  have n: "js_rem (js_abs r) (Fin \<bar>b\<bar>) = NaN" using assms(1) by (cases r) simp_all
  have "gcd_loop (js_abs r) (Fin \<bar>b\<bar>) = gcd_loop (Fin \<bar>b\<bar>) (js_rem (js_abs r) (Fin \<bar>b\<bar>))"
    using ne by (subst gcd_loop.simps) (simp only: if_True not_False_eq_True)
  then show ?thesis by (simp only: gcd_js_def js_abs.simps n gcd_loop_NaN)
qed

lemma lcm_loop_snoc:
  "lcm_loop r (ys @ [z]) =
     (case lcm_loop r ys of
        None \<Rightarrow> None
      | Some r' \<Rightarrow>
          (case gcd_js r' z of
             None \<Rightarrow> None
           | Some g \<Rightarrow> Some (js_div (js_mul r' z) g)))"
proof (induction ys arbitrary: r)
  case Nil
  show ?case by (simp split: option.splits)
next
  case (Cons y ys)
  show ?case by (cases "gcd_js r y") (simp_all add: Cons)
qed

lemma lcm_loop_snoc_returns:
  assumes "z \<noteq> 0"
  shows "(lcm_loop r (ys @ [Fin z]) \<noteq> None) = (\<exists>x. lcm_loop r ys = Some (Fin x))"
proof (cases "lcm_loop r ys")
  case None
  then show ?thesis by (simp add: lcm_loop_snoc)
next
  case (Some r')
  show ?thesis
  proof (cases "\<exists>x. r' = Fin x")
    case True
    then obtain x where x: "r' = Fin x" ..
    obtain g where "gcd_js (Fin x) (Fin z) = Some (Fin g)" using gcd_js_finite by blast
    then show ?thesis by (simp add: lcm_loop_snoc Some x)
  next
    case False
    then have "gcd_js r' (Fin z) = None" using assms by (intro gcd_js_not_finite) simp_all
    then show ?thesis using False by (simp add: lcm_loop_snoc Some)
  qed
qed

lemma lcmOfArray_nums:
  assumes "\<forall>y \<in> set ys. 0 < y"
  shows "lcmOfArray (JArr (map (\<lambda>x. JNum (num x)) ys))
    = (case ys of [] \<Rightarrow> Some (Fin 0) | y # zs \<Rightarrow> lcm_loop (num y) (map num zs))"
proof (cases ys)
  case Nil
  then show ?thesis by (simp add: lcmOfArray_def)
next
  case (Cons y zs)
  have f: "map the_num (filter positive_integer (map (\<lambda>x. JNum (num x)) ys)) = map num ys"
    using assms by (rule filter_positive_nums)
  show ?thesis
    unfolding lcmOfArray_def isArray.simps elems.simps f by (simp add: Cons)
qed

lemma lcmOfArray_returns_iff:
  assumes "list_all positive_integer xs"
  shows "(lcmOfArray (JArr xs) \<noteq> None) = (\<exists>r. lcmOfArray (JArr (butlast xs)) = Some (Fin r))"
proof -
  from assms obtain ys where ys: "xs = map (\<lambda>x. JNum (num x)) ys" "\<forall>y \<in> set ys. 0 < y"
    using positive_integers_are_nums by blast
  have b: "butlast xs = map (\<lambda>x. JNum (num x)) (butlast ys)" by (simp add: ys(1) map_butlast)
  have pb: "\<forall>y \<in> set (butlast ys). 0 < y" using ys(2) by (meson in_set_butlastD)
  show ?thesis
  proof (cases ys rule: rev_cases)
    case Nil
    then show ?thesis by (simp add: ys(1) lcmOfArray_def)
  next
    case (snoc ws z)
    then have z: "0 < z" using ys(2) by simp
    show ?thesis
    proof (cases ws)
      case Nil
      then show ?thesis
        using z by (simp add: ys(1) snoc lcmOfArray_def)
    next
      case (Cons y vs)
      have "(lcm_loop (num y) (map num vs @ [Fin (of_int z)]) \<noteq> None)
          = (\<exists>x. lcm_loop (num y) (map num vs) = Some (Fin x))"
        using z by (intro lcm_loop_snoc_returns) simp
      moreover have "lcmOfArray (JArr xs) = lcm_loop (num y) (map num vs @ [Fin (of_int z)])"
        using lcmOfArray_nums [OF ys(2)] by (simp add: ys(1) snoc Cons)
      moreover have "lcmOfArray (JArr (butlast xs)) = lcm_loop (num y) (map num vs)"
        using lcmOfArray_nums [OF pb] by (simp add: b snoc Cons)
      ultimately show ?thesis by simp
    qed
  qed
qed

lemma post_bfhl_lcm_valid:
  assumes "valid_payload ''lcm'' v"
  shows "post_bfhl cfg (Some (JObj [(''lcm'', v)]))
    = (case lcmOfArray v of None \<Rightarrow> None | Some r \<Rightarrow> Some (succeed cfg (JNum r)))"
proof -
  from assms obtain xs where v: "v = JArr xs"
    by (cases v) (simp_all add: valid_payload_def)
  from assms have a: "list_all positive_integer xs" and l: "\<not> 20 < length xs"
    by (simp_all add: valid_payload_def v)
  have f: "filter positive_integer xs = xs" using a by (rule filter_all)
  have k: "''lcm'' \<in> set validKeys" by (simp add: validKeys_def)
  have n: "(if toLowerCase ''lcm'' = ''ai'' then ''AI'' else ''lcm'') = ''lcm''"
    by (simp add: toLowerCase_validKeys)
  show ?thesis
    unfolding post_bfhl_single [OF k] n switch_key_def get_prop_single v
    using l by (simp add: f)
qed

lemma post_bfhl_lcm_answered_iff:
  assumes "valid_payload ''lcm'' v"
  shows "(\<exists>d. post_bfhl cfg (Some (JObj [(''lcm'', v)])) = Some (succeed cfg d))
    = (\<exists>r. lcmOfArray (JArr (butlast (elems v))) = Some (Fin r))"
    and "post_bfhl cfg (Some (JObj [(''lcm'', v)])) = None
      \<or> (\<exists>d. post_bfhl cfg (Some (JObj [(''lcm'', v)])) = Some (succeed cfg d))"
proof -
  from assms obtain xs where v: "v = JArr xs"
    by (cases v) (simp_all add: valid_payload_def)
  from assms have a: "list_all positive_integer xs" by (simp add: valid_payload_def v)
  have p: "post_bfhl cfg (Some (JObj [(''lcm'', v)]))
    = (case lcmOfArray v of None \<Rightarrow> None | Some r \<Rightarrow> Some (succeed cfg (JNum r)))"
    using assms by (rule post_bfhl_lcm_valid)
  have "(\<exists>d. post_bfhl cfg (Some (JObj [(''lcm'', v)])) = Some (succeed cfg d))
      = (lcmOfArray v \<noteq> None)"
    unfolding p by (cases "lcmOfArray v") auto
  then show "(\<exists>d. post_bfhl cfg (Some (JObj [(''lcm'', v)])) = Some (succeed cfg d))
    = (\<exists>r. lcmOfArray (JArr (butlast (elems v))) = Some (Fin r))"
    using lcmOfArray_returns_iff [OF a] by (simp add: v)
  show "post_bfhl cfg (Some (JObj [(''lcm'', v)])) = None
      \<or> (\<exists>d. post_bfhl cfg (Some (JObj [(''lcm'', v)])) = Some (succeed cfg d))"
    unfolding p by (cases "lcmOfArray v") auto
qed

lemma post_bfhl_lcm_short:
  assumes "valid_payload ''lcm'' v" "length (elems v) \<le> 2"
  shows "\<exists>d. post_bfhl cfg (Some (JObj [(''lcm'', v)])) = Some (succeed cfg d)"
proof -
  from assms obtain xs where v: "v = JArr xs"
    by (cases v) (simp_all add: valid_payload_def)
  from assms have a: "list_all positive_integer xs" by (simp add: valid_payload_def v)
  then obtain ys where ys: "xs = map (\<lambda>x. JNum (num x)) ys" "\<forall>y \<in> set ys. 0 < y"
    using positive_integers_are_nums by blast
  have pb: "\<forall>y \<in> set (butlast ys). 0 < y" using ys(2) by (meson in_set_butlastD)
  have "length (butlast ys) \<le> 1" using assms(2) by (simp add: v ys(1))
  then consider "butlast ys = []" | y where "butlast ys = [y]"
    by (cases "butlast ys") (auto simp: Suc_le_eq)
  then have "\<exists>r. lcmOfArray (JArr (map (\<lambda>x. JNum (num x)) (butlast ys))) = Some (Fin r)"
    unfolding lcmOfArray_nums [OF pb] by cases simp_all
  then have "\<exists>r. lcmOfArray (JArr (butlast (elems v))) = Some (Fin r)"
    by (simp add: v ys(1) map_butlast)
  then show ?thesis by (simp only: post_bfhl_lcm_answered_iff(1) [OF assms(1)])
qed

text \<open>
  C1, as amended. A body with exactly one recognized key and a valid payload is answered
  HTTP 200 with \<open>is_success: true\<close> when the key is \<open>fibonacci\<close>, \<open>prime\<close> or \<open>hcf\<close>;
  when the key is \<open>lcm\<close>, exactly when the fold over the array without its last element
  gives a finite number, that is when no result before the last one has overflowed to
  \<open>Infinity\<close>: so for every array of at most two elements, and for every array whose
  products stay within \<open>2^53\<close>, and otherwise no response is sent; and when the key is \<open>AI\<close> or \<open>ai\<close>, the question has
  a character other than white space, and the bridge is available. With the AI key, such a
  question and the bridge unavailable, the answer is HTTP 503.
\<close>

theorem valid_payload_is_200_unless_ai_unavailable_or_lcm_overflow:
  "k \<in> {''fibonacci'', ''prime'', ''lcm'', ''hcf'', ''AI'', ''ai''} \<and> valid_payload k v \<longrightarrow>
     (k = ''fibonacci'' \<or> k = ''prime'' \<or> k = ''hcf'' \<longrightarrow>
        (\<exists>d. post_bfhl cfg (Some (JObj [(k, v)])) = Some (succeed cfg d)))
     \<and> (k = ''lcm'' \<longrightarrow>
          ((\<exists>d. post_bfhl cfg (Some (JObj [(k, v)])) = Some (succeed cfg d))
             = (\<exists>r. lcmOfArray (JArr (butlast (elems v))) = Some (Fin r)))
          \<and> (length (elems v) \<le> 2 \<longrightarrow>
               (\<exists>d. post_bfhl cfg (Some (JObj [(k, v)])) = Some (succeed cfg d)))
          \<and> ((\<exists>ys. v = JArr (map (\<lambda>x. JNum (num x)) ys)
                 \<and> (ys \<noteq> [] \<longrightarrow> products_exact (hd ys) (tl ys))) \<longrightarrow>
               (\<exists>d. post_bfhl cfg (Some (JObj [(k, v)])) = Some (succeed cfg d)))
          \<and> (post_bfhl cfg (Some (JObj [(k, v)])) = None
               \<or> (\<exists>d. post_bfhl cfg (Some (JObj [(k, v)])) = Some (succeed cfg d))))
     \<and> ((k = ''AI'' \<or> k = ''ai'')
          \<and> (\<exists>q. v = JStr q \<and> trim q \<noteq> [] \<and> \<not> unavailable cfg (trim q)) \<longrightarrow>
        (\<exists>d. post_bfhl cfg (Some (JObj [(k, v)])) = Some (succeed cfg d)))
     \<and> ((k = ''AI'' \<or> k = ''ai'')
          \<and> (\<exists>q. v = JStr q \<and> trim q \<noteq> [] \<and> unavailable cfg (trim q)) \<longrightarrow>
        post_bfhl cfg (Some (JObj [(k, v)])) = Some (fail cfg 503
          ''AI service unavailable. Set GEMINI_API_KEY environment variable.''))
     \<and> status (succeed cfg d) = 200 \<and> is_success (succeed cfg d)"
proof (intro impI conjI)
  assume a: "k \<in> {''fibonacci'', ''prime'', ''lcm'', ''hcf'', ''AI'', ''ai''} \<and> valid_payload k v"
  then have vp: "valid_payload k v" by simp
  show "\<exists>d. post_bfhl cfg (Some (JObj [(k, v)])) = Some (succeed cfg d)"
    if "k = ''fibonacci'' \<or> k = ''prime'' \<or> k = ''hcf''"
    using that vp post_bfhl_fibonacci [of v cfg] post_bfhl_prime [of v cfg] post_bfhl_hcf [of v cfg]
    by blast
  show "(\<exists>d. post_bfhl cfg (Some (JObj [(k, v)])) = Some (succeed cfg d))
          = (\<exists>r. lcmOfArray (JArr (butlast (elems v))) = Some (Fin r))"
    if "k = ''lcm''"
    using that vp post_bfhl_lcm_answered_iff(1) [of v cfg] by simp
  show "\<exists>d. post_bfhl cfg (Some (JObj [(k, v)])) = Some (succeed cfg d)"
    if "k = ''lcm''" "length (elems v) \<le> 2"
    using that vp post_bfhl_lcm_short [of v cfg] by simp
  show "\<exists>d. post_bfhl cfg (Some (JObj [(k, v)])) = Some (succeed cfg d)"
    if "k = ''lcm''" "\<exists>ys. v = JArr (map (\<lambda>x. JNum (num x)) ys)
            \<and> (ys \<noteq> [] \<longrightarrow> products_exact (hd ys) (tl ys))"
    using that vp post_bfhl_lcm [of v _ cfg] by blast
  show "post_bfhl cfg (Some (JObj [(k, v)])) = None
          \<or> (\<exists>d. post_bfhl cfg (Some (JObj [(k, v)])) = Some (succeed cfg d))"
    if "k = ''lcm''"
    using that vp post_bfhl_lcm_answered_iff(2) [of v cfg] by simp
  have len: "length q \<le> 500" if "v = JStr q" "k = ''AI'' \<or> k = ''ai''" for q
    using vp that by (auto simp: valid_payload_def)
  show "\<exists>d. post_bfhl cfg (Some (JObj [(k, v)])) = Some (succeed cfg d)"
    if "(k = ''AI'' \<or> k = ''ai'')
          \<and> (\<exists>q. v = JStr q \<and> trim q \<noteq> [] \<and> \<not> unavailable cfg (trim q))"
  proof -
    from that obtain q where q: "v = JStr q" "trim q \<noteq> []" "\<not> unavailable cfg (trim q)"
      and k: "k = ''AI'' \<or> k = ''ai''" by blast
    show ?thesis using post_bfhl_AI_answer [OF k q(2) len [OF q(1) k] q(3)] q(1) by blast
  qed
  show "post_bfhl cfg (Some (JObj [(k, v)])) = Some (fail cfg 503
          ''AI service unavailable. Set GEMINI_API_KEY environment variable.'')"
    if "(k = ''AI'' \<or> k = ''ai'')
          \<and> (\<exists>q. v = JStr q \<and> trim q \<noteq> [] \<and> unavailable cfg (trim q))"
  proof -
    from that obtain q where q: "v = JStr q" "trim q \<noteq> []" "unavailable cfg (trim q)"
      and k: "k = ''AI'' \<or> k = ''ai''" by blast
    show ?thesis using post_bfhl_AI_unavailable [OF k q(2) len [OF q(1) k] q(3)] q(1) by simp
  qed
next
  show "status (succeed cfg d) = 200" by (simp add: succeed_def)
  show "is_success (succeed cfg d)" by (simp add: succeed_def)
qed

theorem valid_payload_is_200_unless_ai_unavailable_or_lcm_overflow_witness:
  "(\<exists>d. post_bfhl (startup None None failing_client)
          (Some (JObj [(''prime'', JArr [JNum (num 2), JNum (num 4), JNum (num 7)])]))
        = Some (succeed (startup None None failing_client) d))
   \<and> (\<exists>d. post_bfhl (startup None None failing_client)
          (Some (JObj [(''lcm'', JArr [JNum (Fin 1152921504606846976), JNum (Fin 2)])]))
        = Some (succeed (startup None None failing_client) d))
   \<and> (\<exists>d. post_bfhl (startup None None failing_client)
          (Some (JObj [(''lcm'', JArr [JNum (Fin 1152921504606846976), JNum (Fin 3), JNum (Fin 5)])]))
        = Some (succeed (startup None None failing_client) d))
   \<and> (\<exists>d. post_bfhl (startup None None failing_client)
          (Some (JObj [(''lcm'', JArr (map (\<lambda>x. JNum (num x)) [12, 18, 24]))]))
        = Some (succeed (startup None None failing_client) d))
   \<and> (\<exists>d. post_bfhl (startup None (Some ''key'') answering_client)
          (Some (JObj [(''ai'', JStr ''hi'')]))
        = Some (succeed (startup None (Some ''key'') answering_client) d))
   \<and> post_bfhl (startup None None answering_client) (Some (JObj [(''ai'', JStr ''hi'')]))
        = Some (fail (startup None None answering_client) 503
            ''AI service unavailable. Set GEMINI_API_KEY environment variable.'')
   \<and> status (succeed (startup None None failing_client) JNull) = 200
   \<and> is_success (succeed (startup None None failing_client) JNull)"
proof -
  note T = valid_payload_is_200_unless_ai_unavailable_or_lcm_overflow
  have h1: "''prime'' \<in> {''fibonacci'', ''prime'', ''lcm'', ''hcf'', ''AI'', ''ai''}
      \<and> valid_payload ''prime'' (JArr [JNum (num 2), JNum (num 4), JNum (num 7)])"
    by (simp add: valid_payload_def js_ge_def js_le_def)
  have 1: "\<exists>d. post_bfhl (startup None None failing_client)
          (Some (JObj [(''prime'', JArr [JNum (num 2), JNum (num 4), JNum (num 7)])]))
        = Some (succeed (startup None None failing_client) d)"
    by (rule T [of "''prime''" _ "startup None None failing_client" JNull,
           rule_format, OF h1, THEN conjunct1, rule_format]) simp
  have h4: "''lcm'' \<in> {''fibonacci'', ''prime'', ''lcm'', ''hcf'', ''AI'', ''ai''}
      \<and> valid_payload ''lcm'' (JArr [JNum (Fin 1152921504606846976), JNum (Fin 2)])"
    by (simp add: valid_payload_def positive_integer_def js_gt_def)
  have 4: "\<exists>d. post_bfhl (startup None None failing_client)
          (Some (JObj [(''lcm'', JArr [JNum (Fin 1152921504606846976), JNum (Fin 2)])]))
        = Some (succeed (startup None None failing_client) d)"
    by (rule T [of "''lcm''" _ "startup None None failing_client" JNull,
           rule_format, OF h4, THEN conjunct2, THEN conjunct1, rule_format, OF refl,
           THEN conjunct2, THEN conjunct1, rule_format]) simp
  have h5: "''lcm'' \<in> {''fibonacci'', ''prime'', ''lcm'', ''hcf'', ''AI'', ''ai''}
      \<and> valid_payload ''lcm''
          (JArr [JNum (Fin 1152921504606846976), JNum (Fin 3), JNum (Fin 5)])"
    by (simp add: valid_payload_def positive_integer_def js_gt_def)
  have "bitlen 3458764513820540928 = 53 + int 9" by code_simp
  then have "round_double (of_int 3458764513820540928) =
      num (round_div 3458764513820540928 (2 ^ 9) * 2 ^ 9)"
    by (intro round_double_big_int) simp_all
  then have m: "round_double 3458764513820540928 = Fin 3458764513820540928"
    by (simp add: round_div_def)
  have "gcd (1152921504606846976::int) 3 = 1" by code_simp
  then have g: "gcd_js (Fin 1152921504606846976) (Fin 3) = Some (Fin 1)"
    using gcd_js_num [of 1152921504606846976 3] by simp
  have "lcmOfArray (JArr [JNum (Fin 1152921504606846976), JNum (Fin 3)])
      = Some (Fin 3458764513820540928)"
    by (simp add: lcmOfArray_def positive_integer_def js_gt_def g m)
  then have e5: "\<exists>r. lcmOfArray (JArr (butlast (elems
      (JArr [JNum (Fin 1152921504606846976), JNum (Fin 3), JNum (Fin 5)])))) = Some (Fin r)"
    by simp
  have 5: "\<exists>d. post_bfhl (startup None None failing_client)
          (Some (JObj [(''lcm'', JArr [JNum (Fin 1152921504606846976), JNum (Fin 3), JNum (Fin 5)])]))
        = Some (succeed (startup None None failing_client) d)"
    by (rule T [of "''lcm''" _ "startup None None failing_client" JNull,
           rule_format, OF h5, THEN conjunct2, THEN conjunct1, rule_format, OF refl,
           THEN conjunct1, THEN iffD2, OF e5])
  have h6: "''lcm'' \<in> {''fibonacci'', ''prime'', ''lcm'', ''hcf'', ''AI'', ''ai''}
      \<and> valid_payload ''lcm'' (JArr (map (\<lambda>x. JNum (num x)) [12, 18, 24]))"
    by (simp add: valid_payload_def positive_integer_def js_gt_def)
  have e6: "\<exists>ys. JArr (map (\<lambda>x. JNum (num x)) [12, 18, 24]) = JArr (map (\<lambda>x. JNum (num x)) ys)
                 \<and> (ys \<noteq> [] \<longrightarrow> products_exact (hd ys) (tl ys))"
  proof (intro exI conjI)
    show "JArr (map (\<lambda>x. JNum (num x)) [12, 18, 24]) = JArr (map (\<lambda>x. JNum (num x)) [12, 18, 24])" ..
    have "lcm (12::int) 18 = 36" by code_simp
    then show "[12, 18, 24] \<noteq> [] \<longrightarrow> products_exact (hd [12, 18, 24]) (tl [12, 18, 24::int])"
      by simp
  qed
  have 6: "\<exists>d. post_bfhl (startup None None failing_client)
          (Some (JObj [(''lcm'', JArr (map (\<lambda>x. JNum (num x)) [12, 18, 24]))]))
        = Some (succeed (startup None None failing_client) d)"
    by (rule T [of "''lcm''" _ "startup None None failing_client" JNull,
           rule_format, OF h6, THEN conjunct2, THEN conjunct1, rule_format, OF refl,
           THEN conjunct2, THEN conjunct2, THEN conjunct1, rule_format, OF e6])
  have h2: "''ai'' \<in> {''fibonacci'', ''prime'', ''lcm'', ''hcf'', ''AI'', ''ai''}
      \<and> valid_payload ''ai'' (JStr ''hi'')"
    by (simp add: valid_payload_def)
  have t: "trim '' Mumbai, of course. '' \<noteq> []" by code_simp
  have "\<not> unavailable (startup None (Some ''key'') answering_client) (trim ''hi'')"
    using t by (simp add: unavailable_def startup_def answering_client_def)
  then have h3: "(''ai'' = ''AI'' \<or> ''ai'' = ''ai'')
      \<and> (\<exists>q. JStr ''hi'' = JStr q \<and> trim q \<noteq> []
            \<and> \<not> unavailable (startup None (Some ''key'') answering_client) (trim q))"
    by (simp add: trim_hi)
  have 2: "\<exists>d. post_bfhl (startup None (Some ''key'') answering_client)
          (Some (JObj [(''ai'', JStr ''hi'')]))
        = Some (succeed (startup None (Some ''key'') answering_client) d)"
    by (rule T [of "''ai''" _ "startup None (Some ''key'') answering_client" JNull,
           rule_format, OF h2, THEN conjunct2, THEN conjunct2, THEN conjunct1,
           rule_format, OF h3])
  have "unavailable (startup None None answering_client) (trim ''hi'')"
    by (simp add: unavailable_def startup_def)
  then have h7: "(''ai'' = ''AI'' \<or> ''ai'' = ''ai'')
      \<and> (\<exists>q. JStr ''hi'' = JStr q \<and> trim q \<noteq> []
            \<and> unavailable (startup None None answering_client) (trim q))"
    by (simp add: trim_hi)
  have 7: "post_bfhl (startup None None answering_client) (Some (JObj [(''ai'', JStr ''hi'')]))
        = Some (fail (startup None None answering_client) 503
            ''AI service unavailable. Set GEMINI_API_KEY environment variable.'')"
    by (rule T [of "''ai''" _ "startup None None answering_client" JNull,
           rule_format, OF h2, THEN conjunct2, THEN conjunct2, THEN conjunct2, THEN conjunct1,
           rule_format, OF h7])
  note 3 = T [of "''prime''" _ "startup None None failing_client" JNull,
           rule_format, OF h1, THEN conjunct2, THEN conjunct2, THEN conjunct2, THEN conjunct2]
  show ?thesis using 1 4 5 6 2 7 3 [THEN conjunct1] 3 [THEN conjunct2] by (intro conjI)
qed

text \<open>
  C1 as stated fails for the AI key: a valid question without a credential is answered 503.
\<close>

theorem valid_ai_question_without_credential_is_503:
  "''AI'' \<in> {''fibonacci'', ''prime'', ''lcm'', ''hcf'', ''AI'', ''ai''}
   \<and> valid_payload ''AI'' (JStr ''hi'')
   \<and> post_bfhl (startup None None answering_client) (Some (JObj [(''AI'', JStr ''hi'')]))
     = Some (fail (startup None None answering_client) 503
         ''AI service unavailable. Set GEMINI_API_KEY environment variable.'')
   \<and> status (fail (startup None None answering_client) 503
         ''AI service unavailable. Set GEMINI_API_KEY environment variable.'') = 503
   \<and> \<not> is_success (fail (startup None None answering_client) 503
         ''AI service unavailable. Set GEMINI_API_KEY environment variable.'')"
proof -
  have "unavailable (startup None None answering_client) (trim ''hi'')"
    by (simp add: unavailable_def startup_def)
  then have "post_bfhl (startup None None answering_client) (Some (JObj [(''AI'', JStr ''hi'')]))
     = Some (fail (startup None None answering_client) 503
         ''AI service unavailable. Set GEMINI_API_KEY environment variable.'')"
    by (intro post_bfhl_AI_unavailable) (simp_all add: trim_hi)
  then show ?thesis by (simp add: validKeys_def valid_payload_def fail_def)
qed


end
